theory Spec2Isabelle
  imports Complex_Main
begin

section \<open>Python values and errors\<close>

text \<open>
  The program is Python. Its integers are unbounded (\<open>int\<close>), its strings are lists of
  characters, and every \<open>raise\<close> of the source (and of the built-ins it calls) is a
  value \<open>Inl e\<close> of the result type \<open>py_error + 'a\<close>. A method that mutates its object
  takes the object and returns the new one. A method \<open>_m\<close> of a class \<open>C\<close> is the
  constant \<open>C_m\<close>; the attributes \<open>id\<close> and \<open>log\<close> are the fields \<open>seq_id\<close> and
  \<open>log_list\<close>, and a parameter \<open>size\<close> is written \<open>sz\<close>.
\<close>

datatype value_error =
    SeqMustBeStr                \<comment> \<open>\<open>ValueError('"seq" must be a str')\<close>\<close>
  | GreaterThanLength int int   \<comment> \<open>\<open>ValueError(f"{pos} greater than length {length}")\<close>\<close>
  | MaxOfEmpty                  \<comment> \<open>\<open>max([])\<close>\<close>

datatype py_error = ValueError value_error | IndexError | ZeroDivisionError

text \<open>Sequencing of fallible steps: the first exception ends the computation.\<close>

definition and_then :: "py_error + 'a \<Rightarrow> ('a \<Rightarrow> py_error + 'b) \<Rightarrow> py_error + 'b" where
  "and_then r f = (case r of Inl e \<Rightarrow> Inl e | Inr x \<Rightarrow> f x)"

text \<open>A \<open>for\<close> loop whose body may raise, threading the loop's variables as a state.\<close>

fun for_loop :: "('i \<Rightarrow> 's \<Rightarrow> py_error + 's) \<Rightarrow> 'i list \<Rightarrow> 's \<Rightarrow> py_error + 's" where
  "for_loop body [] s = Inr s"
| "for_loop body (i # is) s = and_then (body i s) (for_loop body is)"

text \<open>\<open>range(n)\<close> for a Python integer \<open>n\<close>: empty when \<open>n \<le> 0\<close>.\<close>

definition py_range :: "int \<Rightarrow> int list" where
  "py_range n = map int [0..<nat n]"

text \<open>\<open>xs[i]\<close>: a negative index counts from the end; out of range raises IndexError.\<close>

definition py_index :: "'a list \<Rightarrow> int \<Rightarrow> py_error + 'a" where
  "py_index xs i =
     (let n = int (length xs)
      in if - n \<le> i \<and> i < n then Inr (xs ! nat (if i < 0 then i + n else i))
         else Inl IndexError)"

text \<open>\<open>xs[a:b]\<close>: negative bounds count from the end, then both are clipped to the list.\<close>

definition py_slice :: "'a list \<Rightarrow> int \<Rightarrow> int \<Rightarrow> 'a list" where
  "py_slice xs a b =
     (let n = int (length xs);
          lo = (if a < 0 then max (a + n) 0 else min a n);
          hi = (if b < 0 then max (b + n) 0 else min b n)
      in take (nat (hi - lo)) (drop (nat lo) xs))"

text \<open>
  The values a caller can pass where the source expects a string: Python is dynamically
  typed, so the constructor of Sequence can receive any of them.
\<close>

datatype py_object =
    StrObj string
  | IntObj int
  | FloatObj rat
  | BoolObj bool
  | NoneObj
  | ListObj "py_object list"

section \<open>sequence.py\<close>

record sequence =
  seqStr :: string
  seqLst :: "string list"
  seq_id :: string
  kmers :: "string list"
  features :: "int list"

text \<open>The setter of \<open>seqStr\<close>: \<open>isinstance(seq, str)\<close> or ValueError.\<close>

definition seqStr_setter :: "py_object \<Rightarrow> py_error + string" where
  "seqStr_setter seq = (case seq of StrObj s \<Rightarrow> Inr s | _ \<Rightarrow> Inl (ValueError SeqMustBeStr))"

text \<open>
  \<open>Sequence.__init__\<close>: the setter runs first, so a payload that is not a string raises
  before anything else is evaluated; \<open>list(seq)\<close> of a string is its one-character strings.
\<close>

definition Sequence_init :: "py_object \<Rightarrow> string \<Rightarrow> py_error + sequence" where
  "Sequence_init seq ident =
     and_then (seqStr_setter seq) (\<lambda>s.
       Inr \<lparr>seqStr = s, seqLst = map (\<lambda>c. [c]) s, seq_id = ident, kmers = [], features = []\<rparr>)"

definition getLength :: "sequence \<Rightarrow> int" where
  "getLength self = int (length (seqStr self))"

text \<open>\<open>Sequence._buildKmers\<close> and its public wrapper \<open>buildKmers\<close>.\<close>

definition Sequence_buildKmers :: "sequence \<Rightarrow> int \<Rightarrow> sequence" where
  "Sequence_buildKmers self sz =
     (let len = getLength self;
          stop = len - (sz - 1);
          kms = fold (\<lambda>i acc. acc @ [py_slice (seqStr self) i (i + sz)]) (py_range stop) []
      in self\<lparr>kmers := kms\<rparr>)"

definition buildKmers :: "sequence \<Rightarrow> int \<Rightarrow> sequence" where
  "buildKmers self sz = Sequence_buildKmers self sz"

text \<open>\<open>Sequence.getBase\<close>: the guard only tests the upper bound; the indexing follows.\<close>

definition getBase :: "sequence \<Rightarrow> int \<Rightarrow> py_error + char" where
  "getBase self pos =
     (let len = getLength self
      in if pos \<ge> len then Inl (ValueError (GreaterThanLength pos len))
         else py_index (seqStr self) pos)"

section \<open>kernel.py\<close>

datatype kernel =
    Spectrum (kernel_kmers: "string list") (kernel_size: int) (kernel_name: string)
  | Mismatch (kernel_kmers: "string list") (kernel_size: int) (kernel_name: string)
             (kernel_mismatch: int)

text \<open>
  \<open>Spectrum.featureVector\<close>: the outer loop runs over the vocabulary, the inner one over
  the input; \<open>count\<close> is reset after every append. All indices are within range.
\<close>

definition Spectrum_featureVector :: "string list \<Rightarrow> string list \<Rightarrow> int list" where
  "Spectrum_featureVector self_kmers kms =
     snd (fold (\<lambda>i (count, v).
            let count' = fold (\<lambda>j c. if kms ! j = self_kmers ! i then c + 1 else c)
                              [0..<length kms] count
            in (0, v @ [count']))
          [0..<length self_kmers] (0, []))"

text \<open>
  \<open>Mismatch._numMismatch\<close>: the loop runs over the positions of \<open>ref\<close> and reads
  \<open>cand\<close> at each of them, so a shorter \<open>cand\<close> raises IndexError and a longer one
  has its tail ignored.
\<close>

definition Mismatch_numMismatch :: "string \<Rightarrow> string \<Rightarrow> py_error + int" where
  "Mismatch_numMismatch ref cand =
     for_loop (\<lambda>i count.
         and_then (py_index ref i) (\<lambda>r.
         and_then (py_index cand i) (\<lambda>c.
           Inr (if r \<noteq> c then count + 1 else count))))
       (py_range (int (length ref))) 0"

text \<open>
  \<open>Mismatch.featureVector\<close>: the reference of each comparison is the input k-mer, the
  candidate is the vocabulary entry.
\<close>

definition Mismatch_featureVector :: "string list \<Rightarrow> int \<Rightarrow> string list \<Rightarrow> py_error + int list" where
  "Mismatch_featureVector self_kmers mismatch kms =
     and_then
       (for_loop (\<lambda>i (count, v).
            and_then
              (for_loop (\<lambda>j c.
                   and_then (Mismatch_numMismatch (kms ! j) (self_kmers ! i)) (\<lambda>d.
                     Inr (if d \<le> mismatch then c + 1 else c)))
                 [0..<length kms] count)
              (\<lambda>count'. Inr (0, v @ [count'])))
          [0..<length self_kmers] (0, []))
       (\<lambda>(count, v). Inr v)"

definition featureVector :: "kernel \<Rightarrow> string list \<Rightarrow> py_error + int list" where
  "featureVector self kms =
     (case self of
        Spectrum vocab _ _ \<Rightarrow> Inr (Spectrum_featureVector vocab kms)
      | Mismatch vocab _ _ m \<Rightarrow> Mismatch_featureVector vocab m kms)"

text \<open>
  Numbers. A centroid entry is a Python \<open>int\<close> when it was drawn by \<open>Cluster._init\<close> and
  a \<open>float\<close> once \<open>Cluster._update\<close> has divided; \<open>str\<close> prints the two differently,
  while \<open>==\<close>, \<open>>\<close> and \<open>max\<close> compare them by value. A float is modelled as the
  rational number it denotes (no NaN, no infinity, no overflow), and every float operation
  rounds its exact result with a function \<open>fl\<close> that the model takes as a parameter: the
  identity gives exact arithmetic, and the theorems hold for every rounding.
\<close>

datatype pynum = PyInt int | PyFloat rat

definition num_val :: "pynum \<Rightarrow> rat" where
  "num_val x = (case x of PyInt a \<Rightarrow> of_int a | PyFloat q \<Rightarrow> q)"

definition to_float :: "(rat \<Rightarrow> rat) \<Rightarrow> pynum \<Rightarrow> rat" where
  "to_float fl x = (case x of PyInt a \<Rightarrow> fl (of_int a) | PyFloat q \<Rightarrow> q)"

definition num_add :: "(rat \<Rightarrow> rat) \<Rightarrow> pynum \<Rightarrow> pynum \<Rightarrow> pynum" where
  "num_add fl x y =
     (case (x, y) of
        (PyInt a, PyInt b) \<Rightarrow> PyInt (a + b)
      | _ \<Rightarrow> PyFloat (fl (to_float fl x + to_float fl y)))"

definition num_mul :: "(rat \<Rightarrow> rat) \<Rightarrow> pynum \<Rightarrow> pynum \<Rightarrow> pynum" where
  "num_mul fl x y =
     (case (x, y) of
        (PyInt a, PyInt b) \<Rightarrow> PyInt (a * b)
      | _ \<Rightarrow> PyFloat (fl (to_float fl x * to_float fl y)))"

text \<open>\<open>a / b\<close> on two ints: the quotient rounded once, or ZeroDivisionError.\<close>

definition int_truediv :: "(rat \<Rightarrow> rat) \<Rightarrow> int \<Rightarrow> int \<Rightarrow> py_error + pynum" where
  "int_truediv fl a b =
     (if b = 0 then Inl ZeroDivisionError else Inr (PyFloat (fl (of_int a / of_int b))))"

text \<open>
  \<open>max(xs)\<close>: the first of the greatest items (a later item replaces the current one only
  when it is strictly greater); ValueError on an empty list.
\<close>

definition py_max :: "pynum list \<Rightarrow> py_error + pynum" where
  "py_max xs =
     (case xs of
        [] \<Rightarrow> Inl (ValueError MaxOfEmpty)
      | x # rest \<Rightarrow> Inr (fold (\<lambda>y m. if num_val y > num_val m then y else m) rest x))"

text \<open>\<open>Kernel.dotProduct\<close>: the loop runs over \<open>v1\<close> and reads \<open>v2\<close> at each position.\<close>

definition Kernel_dotProduct :: "(rat \<Rightarrow> rat) \<Rightarrow> int list \<Rightarrow> pynum list \<Rightarrow> py_error + pynum" where
  "Kernel_dotProduct fl v1 v2 =
     for_loop (\<lambda>i dot.
         and_then (py_index v2 (int i)) (\<lambda>c.
           Inr (num_add fl dot (num_mul fl (PyInt (v1 ! i)) c))))
       [0..<length v1] (PyInt 0)"

section \<open>cluster.py\<close>

text \<open>
  A cluster holds references to the sequences of the corpus. No sequence is changed once
  the clusters exist, so a member is modelled as the value of the sequence. Each cluster
  is created with lists of its own, and the log holds strings, so nothing is shared
  between two clusters or between the centroid and the log.
\<close>

record cluster =
  centroid :: "pynum list"
  log_list :: "string list"
  members :: "sequence list"

definition Cluster_new :: cluster where
  "Cluster_new = \<lparr>centroid = [], log_list = [], members = []\<rparr>"

text \<open>
  The global random source is a stream of draws with a read position. \<open>random.choice\<close>
  returns some element of a non-empty list and raises IndexError on an empty one.
\<close>

type_synonym rng = "(nat \<Rightarrow> nat) \<times> nat"

definition random_choice :: "'a list \<Rightarrow> rng \<Rightarrow> py_error + ('a \<times> rng)" where
  "random_choice xs g =
     (if xs = [] then Inl IndexError
      else Inr (xs ! (fst g (snd g) mod length xs), (fst g, Suc (snd g))))"

text \<open>\<open>Cluster._init\<close>: \<open>size\<close> draws from \<open>range(size)\<close>.\<close>

definition Cluster_init :: "cluster \<Rightarrow> int \<Rightarrow> rng \<Rightarrow> py_error + (cluster \<times> rng)" where
  "Cluster_init self sz g =
     (let choices = py_range sz
      in and_then
           (for_loop (\<lambda>_ (acc, g').
                and_then (random_choice choices g') (\<lambda>(x, g''). Inr (acc @ [PyInt x], g'')))
              (py_range sz) ([], g))
           (\<lambda>(acc, g'). Inr (self\<lparr>centroid := acc\<rparr>, g')))"

definition Cluster_add :: "cluster \<Rightarrow> sequence \<Rightarrow> cluster" where
  "Cluster_add self member = self\<lparr>members := members self @ [member]\<rparr>"

text \<open>
  \<open>Cluster._update\<close>: \<open>total\<close> starts as the int 0 and only ints are added to it, so the
  sum is exact and the division rounds once. Reading \<open>features[i]\<close> of a member whose
  feature vector is shorter than the centroid raises IndexError.
\<close>

definition Cluster_update :: "(rat \<Rightarrow> rat) \<Rightarrow> cluster \<Rightarrow> py_error + cluster" where
  "Cluster_update fl self =
     (let count = length (members self)
      in if count \<noteq> 0 then
           and_then
             (for_loop (\<lambda>i (total, cen).
                  and_then
                    (for_loop (\<lambda>j t.
                         and_then (py_index (features (members self ! j)) (int i)) (\<lambda>f.
                           Inr (t + f)))
                       [0..<count] total)
                    (\<lambda>total'.
                       and_then (int_truediv fl total' (int count)) (\<lambda>q.
                         Inr (0, cen[i := q]))))
                [0..<length (centroid self)] (0, centroid self))
             (\<lambda>(total, cen). Inr (self\<lparr>centroid := cen\<rparr>))
         else Inr self)"

text \<open>
  \<open>Cluster._record\<close>, \<open>_clear\<close> and \<open>_check\<close>. \<open>str\<close> of a list of numbers is Python's
  own; the model takes it as the parameter \<open>ser\<close>.
\<close>

definition Cluster_record :: "(pynum list \<Rightarrow> string) \<Rightarrow> cluster \<Rightarrow> cluster" where
  "Cluster_record ser self = self\<lparr>log_list := log_list self @ [ser (centroid self)]\<rparr>"

definition Cluster_clear :: "cluster \<Rightarrow> cluster" where
  "Cluster_clear self = self\<lparr>members := []\<rparr>"

definition Cluster_check :: "(pynum list \<Rightarrow> string) \<Rightarrow> cluster \<Rightarrow> bool" where
  "Cluster_check ser self =
     (if length (log_list self) > 0 then
        (let previous = last (log_list self);
             current = ser (centroid self)
         in current = previous)
      else False)"

section \<open>kmeans.py\<close>

record kmeans =
  seqs :: "sequence list"
  kmeans_kernel :: kernel
  kmeans_k :: int
  clusters :: "cluster list"

definition Kmeans_new :: "sequence list \<Rightarrow> kernel \<Rightarrow> int \<Rightarrow> kmeans" where
  "Kmeans_new sqs kern kk = \<lparr>seqs = sqs, kmeans_kernel = kern, kmeans_k = kk, clusters = []\<rparr>"

text \<open>\<open>Kmeans._initSequences\<close>: every sequence gets its k-mers and its feature vector.\<close>

definition Kmeans_initSequences :: "kmeans \<Rightarrow> py_error + kmeans" where
  "Kmeans_initSequences self =
     (let sz = kernel_size (kmeans_kernel self)
      in and_then
           (for_loop (\<lambda>sq out.
                (let sq' = buildKmers sq sz
                 in and_then (featureVector (kmeans_kernel self) (kmers sq')) (\<lambda>v.
                      Inr (out @ [sq'\<lparr>features := v\<rparr>]))))
              (seqs self) [])
           (\<lambda>sqs. Inr (self\<lparr>seqs := sqs\<rparr>)))"

text \<open>\<open>Kmeans._initClusters\<close>: \<open>k\<close> fresh clusters, seeded one after the other.\<close>

definition Kmeans_initClusters :: "kmeans \<Rightarrow> rng \<Rightarrow> py_error + (kmeans \<times> rng)" where
  "Kmeans_initClusters self g =
     (let sz = int (length (kernel_kmers (kmeans_kernel self)))
      in and_then
           (for_loop (\<lambda>_ (cs, g').
                and_then (Cluster_init Cluster_new sz g') (\<lambda>(c, g''). Inr (cs @ [c], g'')))
              (py_range (kmeans_k self)) (clusters self, g))
           (\<lambda>(cs, g'). Inr (self\<lparr>clusters := cs\<rparr>, g')))"

definition Kmeans_init :: "kmeans \<Rightarrow> rng \<Rightarrow> py_error + (kmeans \<times> rng)" where
  "Kmeans_init self g = and_then (Kmeans_initSequences self) (\<lambda>self'. Kmeans_initClusters self' g)"

definition Kmeans_computeDot :: "(rat \<Rightarrow> rat) \<Rightarrow> cluster list \<Rightarrow> sequence \<Rightarrow> py_error + pynum list" where
  "Kmeans_computeDot fl cs sq =
     for_loop (\<lambda>c products.
         and_then (Kernel_dotProduct fl (features sq) (centroid c)) (\<lambda>dot.
           Inr (products @ [dot])))
       cs []"

text \<open>
  \<open>Kmeans._chooseCluster\<close>: the loop keeps the last index whose product equals the
  maximum.
\<close>

definition Kmeans_chooseCluster :: "pynum list \<Rightarrow> py_error + nat" where
  "Kmeans_chooseCluster products =
     and_then (py_max products) (\<lambda>target.
       Inr (fold (\<lambda>i idx. if num_val (products ! i) = num_val target then i else idx)
              [0..<length products] 0))"

text \<open>The body of the loop of \<open>Kmeans._assignSeqs\<close>, for one sequence, and the loop.\<close>

definition assign_one :: "(rat \<Rightarrow> rat) \<Rightarrow> sequence \<Rightarrow> cluster list \<Rightarrow> py_error + cluster list" where
  "assign_one fl sq cs =
     and_then (Kmeans_computeDot fl cs sq) (\<lambda>products.
     and_then (Kmeans_chooseCluster products) (\<lambda>idx.
     and_then (py_index cs (int idx)) (\<lambda>c.
       Inr (cs[idx := Cluster_add c sq]))))"

definition Kmeans_assignSeqs :: "(rat \<Rightarrow> rat) \<Rightarrow> kmeans \<Rightarrow> py_error + kmeans" where
  "Kmeans_assignSeqs fl self =
     and_then (for_loop (assign_one fl) (seqs self) (clusters self)) (\<lambda>cs.
       Inr (self\<lparr>clusters := cs\<rparr>))"

definition Kmeans_updateClusters ::
    "(pynum list \<Rightarrow> string) \<Rightarrow> (rat \<Rightarrow> rat) \<Rightarrow> kmeans \<Rightarrow> py_error + kmeans" where
  "Kmeans_updateClusters ser fl self =
     and_then
       (for_loop (\<lambda>c out.
            and_then (Cluster_update fl (Cluster_record ser c)) (\<lambda>c'. Inr (out @ [c'])))
          (clusters self) [])
       (\<lambda>cs. Inr (self\<lparr>clusters := cs\<rparr>))"

definition Kmeans_checkClusters :: "(pynum list \<Rightarrow> string) \<Rightarrow> kmeans \<Rightarrow> bool" where
  "Kmeans_checkClusters ser self =
     (let count = fold (\<lambda>c n. if Cluster_check ser c then n + 1 else n) (clusters self) (0::int)
      in if count = kmeans_k self then True else False)"

definition Kmeans_clearClusters :: "kmeans \<Rightarrow> kmeans" where
  "Kmeans_clearClusters self = self\<lparr>clusters := map Cluster_clear (clusters self)\<rparr>"

text \<open>One run of the body of the loop of \<open>execute\<close>: clear, assign, update.\<close>

definition execute_pass ::
    "(pynum list \<Rightarrow> string) \<Rightarrow> (rat \<Rightarrow> rat) \<Rightarrow> kmeans \<Rightarrow> py_error + kmeans" where
  "execute_pass ser fl self =
     and_then (Kmeans_assignSeqs fl (Kmeans_clearClusters self)) (Kmeans_updateClusters ser fl)"

text \<open>
  The \<open>while\<close> loop of \<open>execute\<close>. Besides the state and the counter \<open>run\<close> of the source,
  the model returns the states in which the body was entered, oldest first: the length of
  that list is the number of passes performed.
\<close>

function execute_loop ::
    "(pynum list \<Rightarrow> string) \<Rightarrow> (rat \<Rightarrow> rat) \<Rightarrow> int \<Rightarrow> kmeans \<Rightarrow> int \<Rightarrow> kmeans list
       \<Rightarrow> py_error + (kmeans \<times> int \<times> kmeans list)" where
  "execute_loop ser fl limit self run entered =
     (if (\<not> Kmeans_checkClusters ser self) \<and> run < limit then
        (case execute_pass ser fl self of
           Inl e \<Rightarrow> Inl e
         | Inr self' \<Rightarrow> execute_loop ser fl limit self' (run + 1) (entered @ [self]))
      else Inr (self, run, entered))"
  by pat_completeness auto
termination
  by (relation "measure (\<lambda>(ser, fl, limit, self, run, entered). nat (limit - run))") auto

definition execute ::
    "(pynum list \<Rightarrow> string) \<Rightarrow> (rat \<Rightarrow> rat) \<Rightarrow> rng \<Rightarrow> kmeans \<Rightarrow> int
       \<Rightarrow> py_error + (kmeans \<times> int \<times> kmeans list)" where
  "execute ser fl g self limit =
     and_then (Kmeans_init self g) (\<lambda>(self', g'). execute_loop ser fl limit self' 1 [])"

section \<open>Notions of the specification\<close>

text \<open>
  The Hamming distance of two strings of the same length: the number of positions at
  which they differ.
\<close>

definition hamming :: "string \<Rightarrow> string \<Rightarrow> nat" where
  "hamming a b = length (filter (\<lambda>i. a ! i \<noteq> b ! i) [0..<length a])"

text \<open>
  Index \<open>j\<close> is the last position of the greatest value of \<open>ps\<close>: no entry is greater,
  and every later entry is strictly smaller.
\<close>

definition is_last_argmax :: "pynum list \<Rightarrow> nat \<Rightarrow> bool" where
  "is_last_argmax ps j \<longleftrightarrow>
     j < length ps
     \<and> (\<forall>i \<in> {0..<length ps}. num_val (ps ! i) \<le> num_val (ps ! j))
     \<and> (\<forall>i \<in> {0..<length ps}. j < i \<longrightarrow> num_val (ps ! i) < num_val (ps ! j))"

text \<open>
  The dot product of an integer vector and a vector of numbers: the products of the paired
  entries, added up from the left, starting from the int 0, with Python's \<open>*\<close> and
  \<open>+\<close>. It is stated on the pairs of the two vectors, without indices and without
  errors.
\<close>

definition dot_product :: "(rat \<Rightarrow> rat) \<Rightarrow> int list \<Rightarrow> pynum list \<Rightarrow> pynum" where
  "dot_product fl v1 v2 =
     foldl (\<lambda>total (x, y). num_add fl total (num_mul fl (PyInt x) y)) (PyInt 0) (zip v1 v2)"

text \<open>
  The cluster that the Assign step must give a sequence to, among \<open>cs\<close>: the last one
  whose centroid has the greatest dot product with the feature vector of the sequence.
\<close>

definition chosen :: "(rat \<Rightarrow> rat) \<Rightarrow> cluster list \<Rightarrow> sequence \<Rightarrow> nat \<Rightarrow> bool" where
  "chosen fl cs sq j =
     is_last_argmax (map (\<lambda>c. dot_product fl (features sq) (centroid c)) cs) j"

text \<open>
  The vocabulary of a Mismatch kernel consists of k-mers of the kernel's size, and that
  size is positive: \<open>writeClusters\<close> builds the two from the same \<open>size\<close>. The Spectrum
  kernel only compares whole strings and needs no such agreement.
\<close>

definition kernel_fits :: "kernel \<Rightarrow> bool" where
  "kernel_fits kern =
     (case kern of
        Spectrum vocab sz nm \<Rightarrow> True
      | Mismatch vocab sz nm m \<Rightarrow> 0 < sz \<and> (\<forall>w \<in> set vocab. int (length w) = sz))"

text \<open>
  There is a cluster, and every feature vector has the dimension of every centroid: the
  state that \<open>Kmeans._init\<close> establishes.
\<close>

definition dims_agree :: "kmeans \<Rightarrow> bool" where
  "dims_agree self \<longleftrightarrow>
     clusters self \<noteq> []
     \<and> (\<forall>sq \<in> set (seqs self). \<forall>c \<in> set (clusters self).
           length (features sq) = length (centroid c))"

text \<open>
  A serializer for the worked examples, which use exact arithmetic. It prints a list, an
  int and a whole float the way \<open>str\<close> does (\<open>[0, 1]\<close>, \<open>[2.0, 4.0]\<close>); a float that is not
  whole is printed as its fraction, which is enough to tell two centroids apart.
\<close>

fun digits :: "nat \<Rightarrow> string" where
  "digits n = (if n < 10 then [char_of (48 + n)] else digits (n div 10) @ [char_of (48 + n mod 10)])"

declare digits.simps [simp del]

definition str_int :: "int \<Rightarrow> string" where
  "str_int i = (if i < 0 then ''-'' @ digits (nat (- i)) else digits (nat i))"

definition str_num :: "pynum \<Rightarrow> string" where
  "str_num x =
     (case x of
        PyInt i \<Rightarrow> str_int i
      | PyFloat q \<Rightarrow>
          (case quotient_of q of (p, d) \<Rightarrow>
             if d = 1 then str_int p @ ''.0'' else str_int p @ ''/'' @ str_int d))"

fun join_comma :: "string list \<Rightarrow> string" where
  "join_comma [] = []"
| "join_comma [x] = x"
| "join_comma (x # y # ys) = x @ '', '' @ join_comma (y # ys)"

definition str_list :: "pynum list \<Rightarrow> string" where
  "str_list xs = ''['' @ join_comma (map str_num xs) @ '']''"

text \<open>A sequence with a given string and feature vector, for the worked examples.\<close>

definition example_seq :: "string \<Rightarrow> int list \<Rightarrow> sequence" where
  "example_seq s v =
     \<lparr>seqStr = s, seqLst = map (\<lambda>c. [c]) s, seq_id = ''exon'', kmers = [], features = v\<rparr>"

text \<open>
  Three clusters whose centroids give the products 5, 5 and 2 with the feature vector
  \<open>[1, 1]\<close>: the first two tie for the greatest.
\<close>

definition tie_example :: kmeans where
  "tie_example =
     \<lparr>seqs = [example_seq ''AT'' [1, 1]],
      kmeans_kernel = Spectrum [''A'', ''T''] 1 ''SPECTRUM KERNEL'',
      kmeans_k = 3,
      clusters = [\<lparr>centroid = [PyInt 2, PyInt 3], log_list = [''[2, 3]''], members = []\<rparr>,
                  \<lparr>centroid = [PyFloat 3, PyFloat 2], log_list = [''[3.0, 2.0]''], members = []\<rparr>,
                  \<lparr>centroid = [PyInt 1, PyInt 1], log_list = [''[1, 1]''], members = []\<rparr>]\<rparr>"

text \<open>
  The end-to-end example of the specification: four labelled sequences, two clusters, the
  Spectrum kernel on 1-mers with the vocabulary \<open>A\<close>, \<open>T\<close>; and a random source whose
  \<open>n\<close>-th draw is \<open>n\<close>.
\<close>

definition example_corpus :: "sequence list" where
  "example_corpus =
     [example_seq ''AATA'' [],
      example_seq ''TTTA'' [],
      (example_seq ''AAAA'' [])\<lparr>seq_id := ''intron''\<rparr>,
      (example_seq ''TTAT'' [])\<lparr>seq_id := ''intergenic''\<rparr>]"

definition example_kernel :: kernel where
  "example_kernel = Spectrum [''A'', ''T''] 1 ''SPECTRUM KERNEL''"

definition example_rng :: rng where
  "example_rng = (\<lambda>n. n, 0)"

section \<open>Loops that cannot raise\<close>

lemma for_loop_Inr:
  "(\<And>i s. i \<in> set is \<Longrightarrow> body i s = Inr (g i s)) \<Longrightarrow> for_loop body is s = Inr (fold g is s)"
  by (induction "is" arbitrary: s) (auto simp: and_then_def)

lemma fold_snoc_map: "fold (\<lambda>i acc. acc @ [g i]) xs a = a @ map g xs"
  by (induction xs arbitrary: a) auto

lemma fold_nth: "fold (\<lambda>j. f (xs ! j)) [0..<length xs] a = fold f xs a"
proof -
  have "fold (\<lambda>j. f (xs ! j)) [0..<length xs] a = fold f (map (\<lambda>j. xs ! j) [0..<length xs]) a"
    by (simp add: fold_map comp_def)
  then show ?thesis by (simp add: map_nth)
qed

lemma fold_count_if:
  "fold (\<lambda>x c. if P x then c + 1 else c) xs (a::int) = a + int (length (filter P xs))"
  by (induction xs arbitrary: a) auto

lemma fold_add_sum: "fold (\<lambda>x (t::int). t + h x) xs a = a + sum_list (map h xs)"
  by (induction xs arbitrary: a) auto

lemma fold_reset_snoc:
  "fold (\<lambda>i (count, v). (0::int, v @ [g i count])) xs (0, v0) = (0, v0 @ map (\<lambda>i. g i 0) xs)"
  by (induction xs arbitrary: v0) auto

lemma fold_update_upt:
  "n \<le> length cen \<Longrightarrow>
   fold (\<lambda>i (t, c). (0::int, c[i := g i t])) [0..<n] (0, cen)
     = (0, map (\<lambda>i. g i 0) [0..<n] @ drop n cen)"
proof (induction n)
  case 0
  then show ?case by simp
next
  case (Suc n)
  then have n: "n < length cen" by simp
  have "(map (\<lambda>i. g i 0) [0..<n] @ drop n cen)[n := g n 0]
        = map (\<lambda>i. g i 0) [0..<n] @ (drop n cen)[0 := g n 0]"
    by (simp add: list_update_append)
  also have "(drop n cen)[0 := g n 0] = g n 0 # drop (Suc n) cen"
    using n by (simp add: Cons_nth_drop_Suc[symmetric])
  finally show ?case using Suc by simp
qed

section \<open>Sequence\<close>

lemma py_slice_window:
  assumes "0 \<le> i" "0 \<le> b"
  shows "py_slice xs i (i + b) = take (nat b) (drop (nat i) xs)"
proof (cases "i \<le> int (length xs)")
  case outside: False
  then have "drop (nat i) xs = []" by simp
  with outside assms show ?thesis
    by (simp add: py_slice_def Let_def min_def)
next
  case inside: True
  show ?thesis
  proof (cases "i + b \<le> int (length xs)")
    case True
    with inside assms have "nat (i + b - i) = nat b" by simp
    with True inside assms show ?thesis
      by (simp add: py_slice_def Let_def min_def)
  next
    case False
    then have "length (drop (nat i) xs) \<le> nat b" using assms by simp
    then have "take (nat b) (drop (nat i) xs) = drop (nat i) xs" by simp
    moreover have "take (nat (int (length xs) - i)) (drop (nat i) xs) = drop (nat i) xs"
      using inside assms by (simp add: nat_diff_distrib)
    ultimately show ?thesis using False inside assms
      by (simp add: py_slice_def Let_def min_def)
  qed
qed

lemma buildKmers_slices:
  "kmers (buildKmers self sz) =
     map (\<lambda>i. py_slice (seqStr self) (int i) (int i + sz))
         [0..<nat (int (length (seqStr self)) - (sz - 1))]"
  unfolding buildKmers_def Sequence_buildKmers_def Let_def getLength_def py_range_def
  by (simp add: fold_snoc_map fold_map comp_def)

lemma buildKmers_take_drop:
  assumes "0 < sz"
  shows "kmers (buildKmers self sz) =
     map (\<lambda>i. take (nat sz) (drop i (seqStr self)))
         [0..<nat (int (length (seqStr self)) - sz + 1)]"
  using assms by (simp add: buildKmers_slices py_slice_window) (simp add: algebra_simps)

lemma buildKmers_lengths:
  assumes "0 < sz"
  shows "\<forall>k \<in> set (kmers (buildKmers self sz)). int (length k) = sz"
  using assms by (auto simp: buildKmers_take_drop)

text \<open>
  C5: for a positive size that does not exceed the length \<open>L\<close> of the sequence, the k-mers
  are the windows \<open>take size (drop i s)\<close> for \<open>i = 0, ..., L - size\<close> in this order, so
  there are \<open>L - size + 1\<close> of them and each has length \<open>size\<close>; for a size greater than
  \<open>L\<close> there are none.
\<close>

theorem buildKmers_windows:
  assumes "0 < sz"
  shows "(sz \<le> int (length (seqStr self)) \<longrightarrow>
            kmers (buildKmers self sz) =
              map (\<lambda>i. take (nat sz) (drop i (seqStr self)))
                  [0..<nat (int (length (seqStr self)) - sz + 1)]
          \<and> int (length (kmers (buildKmers self sz))) = int (length (seqStr self)) - sz + 1
          \<and> (\<forall>k \<in> set (kmers (buildKmers self sz)). int (length k) = sz))
       \<and> (int (length (seqStr self)) < sz \<longrightarrow> kmers (buildKmers self sz) = [])"
  using assms by (auto simp: buildKmers_take_drop)

theorem buildKmers_windows_witness:
  "(0::int) < 2 \<and> 2 \<le> int (length (seqStr (example_seq ''ATTAG'' [])))
   \<and> kmers (buildKmers (example_seq ''ATTAG'' []) 2) = [''AT'', ''TT'', ''TA'', ''AG'']
   \<and> (0::int) < 6 \<and> int (length (seqStr (example_seq ''ATTAG'' []))) < 6
   \<and> kmers (buildKmers (example_seq ''ATTAG'' []) 6) = []"
proof -
  have two: "(0::int) < 2" and six: "(0::int) < 6" by simp_all
  have fits: "2 \<le> int (length (seqStr (example_seq ''ATTAG'' [])))"
    and exceeds: "int (length (seqStr (example_seq ''ATTAG'' []))) < 6"
    by (simp_all add: example_seq_def)
  have "kmers (buildKmers (example_seq ''ATTAG'' []) 2) =
          map (\<lambda>i. take (nat 2) (drop i (seqStr (example_seq ''ATTAG'' []))))
              [0..<nat (int (length (seqStr (example_seq ''ATTAG'' []))) - 2 + 1)]"
    using buildKmers_windows [OF two, of "example_seq ''ATTAG'' []"] fits by blast
  also have "\<dots> = [''AT'', ''TT'', ''TA'', ''AG'']"
    by code_simp
  finally have windows:
    "kmers (buildKmers (example_seq ''ATTAG'' []) 2) = [''AT'', ''TT'', ''TA'', ''AG'']" .
  have none: "kmers (buildKmers (example_seq ''ATTAG'' []) 6) = []"
    using buildKmers_windows [OF six, of "example_seq ''ATTAG'' []"] exceeds by blast
  show ?thesis using two six fits exceeds windows none by blast
qed

text \<open>
  C9: constructing a Sequence from a payload that is not a string raises the ValueError of
  the setter, so no Sequence is produced; constructing it from a string succeeds and the
  Sequence holds that string.
\<close>

theorem Sequence_init_string_only:
  "((\<forall>s. payload \<noteq> StrObj s) \<longrightarrow> Sequence_init payload ident = Inl (ValueError SeqMustBeStr))
   \<and> (\<forall>s. payload = StrObj s \<longrightarrow> (\<exists>sq. Sequence_init payload ident = Inr sq \<and> seqStr sq = s))"
  by (cases payload) (simp_all add: Sequence_init_def seqStr_setter_def and_then_def)

theorem Sequence_init_string_only_witness:
  "(\<forall>s. IntObj 5 \<noteq> StrObj s)
   \<and> Sequence_init (IntObj 5) ''exon'' = Inl (ValueError SeqMustBeStr)
   \<and> (\<exists>sq. Sequence_init (StrObj ''ACGT'') ''exon'' = Inr sq \<and> seqStr sq = ''ACGT'')"
proof -
  have not_str: "\<forall>s. IntObj 5 \<noteq> StrObj s" by simp
  have "Sequence_init (IntObj 5) ''exon'' = Inl (ValueError SeqMustBeStr)"
    using Sequence_init_string_only [of "IntObj 5" "''exon''"] not_str by blast
  moreover have "\<exists>sq. Sequence_init (StrObj ''ACGT'') ''exon'' = Inr sq \<and> seqStr sq = ''ACGT''"
    using Sequence_init_string_only [of "StrObj ''ACGT''" "''exon''"] by blast
  ultimately show ?thesis using not_str by blast
qed

text \<open>
  C10: \<open>getBase(pos)\<close> raises its own ValueError exactly when \<open>pos\<close> is at least the length
  of the sequence, and for \<open>-L \<le> pos \<le> -1\<close> it returns the nucleotide at position
  \<open>L + pos\<close>.
\<close>

theorem getBase_bounds:
  "((\<exists>e. getBase self pos = Inl (ValueError e)) \<longleftrightarrow> getLength self \<le> pos)
   \<and> (getLength self \<le> pos \<longrightarrow>
        getBase self pos = Inl (ValueError (GreaterThanLength pos (getLength self))))
   \<and> (- getLength self \<le> pos \<and> pos \<le> - 1 \<longrightarrow>
        getBase self pos = Inr (seqStr self ! nat (getLength self + pos)))"
  unfolding getBase_def Let_def py_index_def getLength_def
  by (auto simp: algebra_simps)

theorem getBase_bounds_witness:
  "getLength (example_seq ''ATTAG'' []) \<le> 5
   \<and> getBase (example_seq ''ATTAG'' []) 5 = Inl (ValueError (GreaterThanLength 5 5))
   \<and> - getLength (example_seq ''ATTAG'' []) \<le> - 2 \<and> (- 2::int) \<le> - 1
   \<and> getBase (example_seq ''ATTAG'' []) (- 2) = Inr (CHR ''A'')"
proof -
  have len: "getLength (example_seq ''ATTAG'' []) = 5"
    by (simp add: getLength_def example_seq_def)
  have "getBase (example_seq ''ATTAG'' []) 5 = Inl (ValueError (GreaterThanLength 5 5))"
    using getBase_bounds [of "example_seq ''ATTAG'' []" 5] len by simp
  moreover have "getBase (example_seq ''ATTAG'' []) (- 2)
      = Inr (seqStr (example_seq ''ATTAG'' []) ! nat (getLength (example_seq ''ATTAG'' []) + - 2))"
    using getBase_bounds [of "example_seq ''ATTAG'' []" "- 2"] len by simp
  moreover have "seqStr (example_seq ''ATTAG'' []) ! nat (getLength (example_seq ''ATTAG'' []) + - 2)
      = CHR ''A''"
    by code_simp
  ultimately show ?thesis using len by simp
qed

text \<open>Below \<open>-L\<close> the guard passes and the indexing raises Python's own IndexError.\<close>

lemma getBase_below:
  "getBase (example_seq ''ATTAG'' []) (- 6) = Inl IndexError"
  by code_simp

section \<open>Kernel\<close>

lemma Spectrum_featureVector_eq:
  "Spectrum_featureVector vocab kms = map (\<lambda>w. int (count_list kms w)) vocab"
proof -
  have count: "fold (\<lambda>x c. if x = w then c + 1 else c) xs (a::int) = a + int (count_list xs w)"
    for w :: string and xs a
    by (induction xs arbitrary: a) auto
  have inner: "fold (\<lambda>j c. if kms ! j = vocab ! i then c + 1 else c) [0..<length kms] (0::int)
        = int (count_list kms (vocab ! i))" for i
    using fold_nth [of "\<lambda>x c. if x = vocab ! i then c + 1 else c" kms "0::int"]
    by (simp add: count)
  have "map (\<lambda>i. int (count_list kms (vocab ! i))) [0..<length vocab]
      = map (\<lambda>w. int (count_list kms w)) vocab"
    by (rule nth_equalityI) simp_all
  then show ?thesis
    unfolding Spectrum_featureVector_def Let_def
    using fold_reset_snoc [of "\<lambda>i count. fold (\<lambda>j c. if kms ! j = vocab ! i then c + 1 else c)
                                           [0..<length kms] count" "[0..<length vocab]" "[]"]
    by (simp add: inner)
qed

text \<open>
  C6: the feature vector of the Spectrum kernel has one entry per vocabulary entry, and
  entry \<open>i\<close> is the number of occurrences of vocabulary entry \<open>i\<close> in the input list.
\<close>

theorem Spectrum_featureVector_counts:
  "featureVector (Spectrum vocab sz nm) kms = Inr (Spectrum_featureVector vocab kms)
   \<and> Spectrum_featureVector vocab kms = map (\<lambda>w. int (count_list kms w)) vocab
   \<and> length (Spectrum_featureVector vocab kms) = length vocab"
  by (simp add: featureVector_def Spectrum_featureVector_eq)

lemma Spectrum_example:
  "featureVector (Spectrum [''AT'', ''TA''] 2 ''SPECTRUM KERNEL'') [''AT'', ''TA'', ''AT''] = Inr [2, 1]"
  by code_simp

lemma numMismatch_hamming:
  assumes "length ref \<le> length cand"
  shows "Mismatch_numMismatch ref cand = Inr (int (hamming ref cand))"
proof -
  have body: "\<And>i count. i \<in> set (py_range (int (length ref))) \<Longrightarrow>
      and_then (py_index ref i) (\<lambda>r. and_then (py_index cand i) (\<lambda>c.
          Inr (if r \<noteq> c then count + 1 else count)))
      = Inr (if ref ! nat i \<noteq> cand ! nat i then count + 1 else (count::int))"
    using assms by (auto simp: py_range_def py_index_def and_then_def)
  have "Mismatch_numMismatch ref cand =
      Inr (fold (\<lambda>i count. if ref ! nat i \<noteq> cand ! nat i then count + 1 else count)
             (py_range (int (length ref))) 0)"
    unfolding Mismatch_numMismatch_def by (rule for_loop_Inr) (rule body)
  also have "fold (\<lambda>i count. if ref ! nat i \<noteq> cand ! nat i then count + 1 else count)
             (py_range (int (length ref))) (0::int) = int (hamming ref cand)"
    by (simp add: py_range_def fold_map comp_def fold_count_if hamming_def)
  finally show ?thesis .
qed

lemma hamming_zip:
  assumes "length a = length b"
  shows "hamming a b = length (filter (\<lambda>(x, y). x \<noteq> y) (zip a b))"
proof -
  have "zip a b = map (\<lambda>i. (a ! i, b ! i)) [0..<length a]"
    using assms by (intro nth_equalityI) simp_all
  then show ?thesis
    by (simp add: hamming_def filter_map comp_def)
qed

lemma Mismatch_featureVector_eq:
  assumes "\<forall>c \<in> set kms. \<forall>w \<in> set vocab. length c = length w"
  shows "Mismatch_featureVector vocab budget kms =
           Inr (map (\<lambda>w. int (length (filter (\<lambda>c. int (hamming c w) \<le> budget) kms))) vocab)"
proof -
  let ?inner = "\<lambda>i count. count + int (length (filter (\<lambda>c. int (hamming c (vocab ! i)) \<le> budget) kms))"
  have inner: "for_loop (\<lambda>j c.
                   and_then (Mismatch_numMismatch (kms ! j) (vocab ! i)) (\<lambda>d.
                     Inr (if d \<le> budget then c + 1 else c)))
                 [0..<length kms] count = Inr (?inner i count)"
    if "i < length vocab" for i count
  proof -
    have "for_loop (\<lambda>j c.
                   and_then (Mismatch_numMismatch (kms ! j) (vocab ! i)) (\<lambda>d.
                     Inr (if d \<le> budget then c + 1 else c)))
                 [0..<length kms] count
        = Inr (fold (\<lambda>j c. if int (hamming (kms ! j) (vocab ! i)) \<le> budget then c + 1 else c)
                 [0..<length kms] count)"
    proof (rule for_loop_Inr)
      fix j s assume "j \<in> set [0..<length kms]"
      then have "kms ! j \<in> set kms" "vocab ! i \<in> set vocab" using that by simp_all
      then have "length (kms ! j) \<le> length (vocab ! i)" using assms by auto
      then show "and_then (Mismatch_numMismatch (kms ! j) (vocab ! i))
            (\<lambda>d. Inr (if d \<le> budget then s + 1 else s)) =
           Inr (if int (hamming (kms ! j) (vocab ! i)) \<le> budget then s + 1 else s)"
        by (simp add: numMismatch_hamming and_then_def)
    qed
    also have "fold (\<lambda>j c. if int (hamming (kms ! j) (vocab ! i)) \<le> budget then c + 1 else c)
                 [0..<length kms] count = ?inner i count"
      using fold_nth [of "\<lambda>x c. if int (hamming x (vocab ! i)) \<le> budget then c + 1 else c" kms count]
      by (simp add: fold_count_if)
    finally show ?thesis .
  qed
  have outer: "for_loop (\<lambda>i (count, v).
            and_then
              (for_loop (\<lambda>j c.
                   and_then (Mismatch_numMismatch (kms ! j) (vocab ! i)) (\<lambda>d.
                     Inr (if d \<le> budget then c + 1 else c)))
                 [0..<length kms] count)
              (\<lambda>count'. Inr (0, v @ [count'])))
          [0..<length vocab] (0, [])
       = Inr (fold (\<lambda>i (count, v). (0, v @ [?inner i count])) [0..<length vocab] (0, []))"
  proof (rule for_loop_Inr)
    fix i and s :: "int \<times> int list"
    assume "i \<in> set [0..<length vocab]"
    then have i: "i < length vocab" by simp
    obtain count v where s: "s = (count, v)" by (cases s)
    show "(case s of (count, v) \<Rightarrow>
            and_then
              (for_loop (\<lambda>j c.
                   and_then (Mismatch_numMismatch (kms ! j) (vocab ! i)) (\<lambda>d.
                     Inr (if d \<le> budget then c + 1 else c)))
                 [0..<length kms] count)
              (\<lambda>count'. Inr (0, v @ [count'])))
          = Inr (case s of (count, v) \<Rightarrow> (0, v @ [?inner i count]))"
      unfolding s prod.case inner [OF i] by (simp add: and_then_def)
  qed
  have "map (\<lambda>i. int (length (filter (\<lambda>c. int (hamming c (vocab ! i)) \<le> budget) kms))) [0..<length vocab]
      = map (\<lambda>w. int (length (filter (\<lambda>c. int (hamming c w) \<le> budget) kms))) vocab"
    by (rule nth_equalityI) simp_all
  then show ?thesis
    unfolding Mismatch_featureVector_def outer
    by (simp add: fold_reset_snoc and_then_def)
qed

text \<open>
  C7: when every input k-mer has the length of every vocabulary entry, the feature vector
  of the Mismatch kernel has, for each vocabulary entry \<open>w\<close>, the number of input k-mers
  whose Hamming distance to \<open>w\<close> is at most the budget.
\<close>

theorem Mismatch_featureVector_counts:
  assumes "\<forall>c \<in> set kms. \<forall>w \<in> set vocab. length c = length w"
  shows "featureVector (Mismatch vocab sz nm budget) kms =
           Inr (map (\<lambda>w. int (length (filter (\<lambda>c. int (hamming c w) \<le> budget) kms))) vocab)"
  using Mismatch_featureVector_eq [OF assms] by (simp add: featureVector_def)

theorem Mismatch_featureVector_counts_witness:
  "list_all (\<lambda>c. list_all (\<lambda>w. length c = length w) [''AAA'']) [''AAA'', ''AAT'', ''TTT'']
   \<and> featureVector (Mismatch [''AAA''] 3 ''MISMATCH KERNEL'' 1) [''AAA'', ''AAT'', ''TTT''] = Inr [2]"
proof -
  have same: "\<forall>c \<in> set [''AAA'', ''AAT'', ''TTT'']. \<forall>w \<in> set [''AAA'']. length c = length w"
    by simp
  have "map (\<lambda>w. int (length (filter (\<lambda>c. int (hamming c w) \<le> 1) [''AAA'', ''AAT'', ''TTT''])))
          [''AAA''] = [2]"
    by code_simp
  then show ?thesis
    using Mismatch_featureVector_counts [OF same, of 3 "''MISMATCH KERNEL''" 1] by simp
qed

text \<open>A vocabulary entry shorter than an input k-mer makes \<open>_numMismatch\<close> raise.\<close>

lemma Mismatch_short_vocabulary:
  "featureVector (Mismatch [''AA''] 3 ''MISMATCH KERNEL'' 1) [''AAA''] = Inl IndexError"
  by code_simp

section \<open>Cluster\<close>

lemma Cluster_update_nonempty:
  assumes ne: "members self \<noteq> []"
      and len: "\<forall>m \<in> set (members self). length (centroid self) \<le> length (features m)"
  shows "Cluster_update fl self =
           Inr (self\<lparr>centroid :=
                  map (\<lambda>i. PyFloat (fl (of_int (sum_list (map (\<lambda>m. features m ! i) (members self)))
                                          / of_int (int (length (members self))))))
                      [0..<length (centroid self)]\<rparr>)"
proof -
  let ?ms = "members self"
  let ?n = "length (centroid self)"
  let ?mean = "\<lambda>i (t::int). PyFloat (fl (of_int (t + sum_list (map (\<lambda>m. features m ! i) ?ms))
                                           / of_int (int (length ?ms))))"
  have inner: "for_loop (\<lambda>j t. and_then (py_index (features (?ms ! j)) (int i)) (\<lambda>f. Inr (t + f)))
                 [0..<length ?ms] total
               = Inr (total + sum_list (map (\<lambda>m. features m ! i) ?ms))"
    if "i < ?n" for i total
  proof -
    have "for_loop (\<lambda>j t. and_then (py_index (features (?ms ! j)) (int i)) (\<lambda>f. Inr (t + f)))
                 [0..<length ?ms] total
          = Inr (fold (\<lambda>j t. t + features (?ms ! j) ! i) [0..<length ?ms] total)"
    proof (rule for_loop_Inr)
      fix j t assume "j \<in> set [0..<length ?ms]"
      then have "?ms ! j \<in> set ?ms" by simp
      with len that have "i < length (features (?ms ! j))" by fastforce
      then show "and_then (py_index (features (?ms ! j)) (int i)) (\<lambda>f. Inr (t + f))
                 = Inr (t + features (?ms ! j) ! i)"
        by (simp add: py_index_def and_then_def)
    qed
    also have "fold (\<lambda>j t. t + features (?ms ! j) ! i) [0..<length ?ms] total
               = total + sum_list (map (\<lambda>m. features m ! i) ?ms)"
      using fold_nth [of "\<lambda>m t. t + features m ! i" ?ms total] by (simp add: fold_add_sum)
    finally show ?thesis .
  qed
  have quot: "int_truediv fl t (int (length ?ms))
              = Inr (PyFloat (fl (of_int t / of_int (int (length ?ms)))))" for t
    using ne by (simp add: int_truediv_def)
  have outer: "for_loop (\<lambda>i (total, cen).
                  and_then
                    (for_loop (\<lambda>j t.
                         and_then (py_index (features (?ms ! j)) (int i)) (\<lambda>f.
                           Inr (t + f)))
                       [0..<length ?ms] total)
                    (\<lambda>total'.
                       and_then (int_truediv fl total' (int (length ?ms))) (\<lambda>q.
                         Inr (0, cen[i := q]))))
                [0..<?n] (0, centroid self)
          = Inr (fold (\<lambda>i (t, c). (0, c[i := ?mean i t])) [0..<?n] (0, centroid self))"
  proof (rule for_loop_Inr)
    fix i and s :: "int \<times> pynum list"
    assume "i \<in> set [0..<?n]"
    then have i: "i < ?n" by simp
    obtain total cen where s: "s = (total, cen)" by (cases s)
    show "(case s of (total, cen) \<Rightarrow>
                  and_then
                    (for_loop (\<lambda>j t.
                         and_then (py_index (features (?ms ! j)) (int i)) (\<lambda>f.
                           Inr (t + f)))
                       [0..<length ?ms] total)
                    (\<lambda>total'.
                       and_then (int_truediv fl total' (int (length ?ms))) (\<lambda>q.
                         Inr (0, cen[i := q]))))
          = Inr (case s of (t, c) \<Rightarrow> (0, c[i := ?mean i t]))"
      unfolding s prod.case inner [OF i] by (simp add: and_then_def quot)
  qed
  show ?thesis
    unfolding Cluster_update_def Let_def outer
    using ne fold_update_upt [of ?n "centroid self" ?mean]
    by (simp add: and_then_def)
qed

text \<open>
  C2: when the cluster has members, each with a feature vector at least as long as the
  centroid, \<open>_update\<close> replaces entry \<open>i\<close> of the centroid, for every dimension \<open>i\<close>, with
  the float of the sum of the members' entries \<open>i\<close> divided by the number of members,
  and leaves the members and the log as they were; when the cluster has no members, the
  cluster, and so its centroid, is unchanged.
\<close>

theorem Cluster_update_mean:
  "(members self \<noteq> [] \<and> (\<forall>m \<in> set (members self). length (centroid self) \<le> length (features m))
      \<longrightarrow> Cluster_update fl self =
            Inr (self\<lparr>centroid :=
                   map (\<lambda>i. PyFloat (fl (of_int (sum_list (map (\<lambda>m. features m ! i) (members self)))
                                           / of_int (int (length (members self))))))
                       [0..<length (centroid self)]\<rparr>))
   \<and> (members self = [] \<longrightarrow> Cluster_update fl self = Inr self)"
  using Cluster_update_nonempty [of self fl] by (simp add: Cluster_update_def)

theorem Cluster_update_mean_witness:
  "members \<lparr>centroid = [PyInt 0, PyInt 1], log_list = [''[0, 1]''],
            members = [example_seq ''ATTT'' [1, 3], example_seq ''AAATTTTT'' [3, 5]]\<rparr> \<noteq> []
   \<and> list_all (\<lambda>m. length [PyInt 0, PyInt 1] \<le> length (features m))
        [example_seq ''ATTT'' [1, 3], example_seq ''AAATTTTT'' [3, 5]]
   \<and> Cluster_update (\<lambda>x. x)
        \<lparr>centroid = [PyInt 0, PyInt 1], log_list = [''[0, 1]''],
         members = [example_seq ''ATTT'' [1, 3], example_seq ''AAATTTTT'' [3, 5]]\<rparr>
       = Inr \<lparr>centroid = [PyFloat 2, PyFloat 4], log_list = [''[0, 1]''],
              members = [example_seq ''ATTT'' [1, 3], example_seq ''AAATTTTT'' [3, 5]]\<rparr>
   \<and> members \<lparr>centroid = [PyInt 0, PyInt 1], log_list = [''[0, 1]''], members = []\<rparr> = []
   \<and> Cluster_update (\<lambda>x. x) \<lparr>centroid = [PyInt 0, PyInt 1], log_list = [''[0, 1]''], members = []\<rparr>
       = Inr \<lparr>centroid = [PyInt 0, PyInt 1], log_list = [''[0, 1]''], members = []\<rparr>"
proof -
  let ?ms = "[example_seq ''ATTT'' [1, 3], example_seq ''AAATTTTT'' [3, 5]]"
  let ?full = "\<lparr>centroid = [PyInt 0, PyInt 1], log_list = [''[0, 1]''], members = ?ms\<rparr>"
  let ?empty = "\<lparr>centroid = [PyInt 0, PyInt 1], log_list = [''[0, 1]''], members = []\<rparr>"
  have long: "list_all (\<lambda>m. length [PyInt 0, PyInt 1] \<le> length (features m)) ?ms"
    by (simp add: example_seq_def)
  have means: "map (\<lambda>i. PyFloat (of_int (sum_list (map (\<lambda>m. features m ! i) ?ms))
                                    / of_int (int (length ?ms)))) [0..<length [PyInt 0, PyInt 1]]
               = [PyFloat 2, PyFloat 4]"
    by code_simp
  have "Cluster_update (\<lambda>x. x) ?full = Inr (?full\<lparr>centroid := [PyFloat 2, PyFloat 4]\<rparr>)"
    using Cluster_update_mean [of ?full "\<lambda>x. x"] long means
    by (simp add: list_all_iff)
  moreover have "Cluster_update (\<lambda>x. x) ?empty = Inr ?empty"
    using Cluster_update_mean [of ?empty "\<lambda>x. x"] by simp
  ultimately show ?thesis using long by simp
qed

text \<open>A member whose feature vector is shorter than the centroid makes \<open>_update\<close> raise.\<close>

lemma Cluster_update_short_features:
  "Cluster_update (\<lambda>x. x)
     \<lparr>centroid = [PyInt 0, PyInt 1], log_list = [], members = [example_seq ''A'' [1]]\<rparr>
   = Inl IndexError"
  by code_simp

text \<open>
  C4: \<open>_check\<close> is true exactly when the log is not empty and the serialized centroid is
  equal, as a string, to the last entry of the log, so it is false on an empty log; the
  last entry is the one that the latest \<open>_record\<close> appended, the serialized centroid of
  that moment.
\<close>

theorem Cluster_check_iff:
  "(Cluster_check ser self \<longleftrightarrow> log_list self \<noteq> [] \<and> ser (centroid self) = last (log_list self))
   \<and> (log_list self = [] \<longrightarrow> \<not> Cluster_check ser self)
   \<and> last (log_list (Cluster_record ser self)) = ser (centroid self)
   \<and> (Cluster_check ser ((Cluster_record ser self)\<lparr>centroid := cen\<rparr>) \<longleftrightarrow> ser cen = ser (centroid self))"
  by (auto simp: Cluster_check_def Cluster_record_def Let_def)

theorem Cluster_check_iff_witness:
  "log_list \<lparr>centroid = [PyInt 0, PyInt 1], log_list = [], members = []\<rparr> = []
   \<and> \<not> Cluster_check str_list \<lparr>centroid = [PyInt 0, PyInt 1], log_list = [], members = []\<rparr>
   \<and> Cluster_check str_list \<lparr>centroid = [PyFloat 2, PyFloat 4],
                              log_list = [''[0, 1]'', ''[2.0, 4.0]''], members = []\<rparr>
   \<and> \<not> Cluster_check str_list \<lparr>centroid = [PyFloat 2, PyFloat 4],
                                log_list = [''[2.0, 4.0]'', ''[2, 4]''], members = []\<rparr>"
proof -
  have ser: "str_list [PyFloat 2, PyFloat 4] = ''[2.0, 4.0]''"
    by code_simp
  have "\<not> Cluster_check str_list \<lparr>centroid = [PyInt 0, PyInt 1], log_list = [], members = []\<rparr>"
    using Cluster_check_iff [of str_list "\<lparr>centroid = [PyInt 0, PyInt 1], log_list = [], members = []\<rparr>"]
    by simp
  moreover have "Cluster_check str_list \<lparr>centroid = [PyFloat 2, PyFloat 4],
                              log_list = [''[0, 1]'', ''[2.0, 4.0]''], members = []\<rparr>"
    using Cluster_check_iff [of str_list "\<lparr>centroid = [PyFloat 2, PyFloat 4],
                              log_list = [''[0, 1]'', ''[2.0, 4.0]''], members = []\<rparr>"] ser
    by simp
  moreover have "\<not> Cluster_check str_list \<lparr>centroid = [PyFloat 2, PyFloat 4],
                                log_list = [''[2.0, 4.0]'', ''[2, 4]''], members = []\<rparr>"
    using Cluster_check_iff [of str_list "\<lparr>centroid = [PyFloat 2, PyFloat 4],
                              log_list = [''[2.0, 4.0]'', ''[2, 4]''], members = []\<rparr>"] ser
    by simp
  ultimately show ?thesis by simp
qed

text \<open>
  C8: \<open>_clear\<close> leaves the membership list empty and leaves the centroid and the log as
  they were.
\<close>

theorem Cluster_clear_frame:
  "members (Cluster_clear self) = []
   \<and> centroid (Cluster_clear self) = centroid self
   \<and> log_list (Cluster_clear self) = log_list self"
  by (simp add: Cluster_clear_def)

section \<open>The Assign step\<close>

lemma dotProduct_Inr:
  assumes "length v1 \<le> length v2"
  shows "Kernel_dotProduct fl v1 v2 =
           Inr (fold (\<lambda>i dot. num_add fl dot (num_mul fl (PyInt (v1 ! i)) (v2 ! i)))
                  [0..<length v1] (PyInt 0))"
  unfolding Kernel_dotProduct_def
proof (rule for_loop_Inr)
  fix i dot assume "i \<in> set [0..<length v1]"
  then have "i < length v2" using assms by simp
  then show "and_then (py_index v2 (int i)) (\<lambda>c. Inr (num_add fl dot (num_mul fl (PyInt (v1 ! i)) c)))
             = Inr (num_add fl dot (num_mul fl (PyInt (v1 ! i)) (v2 ! i)))"
    by (simp add: py_index_def and_then_def)
qed

text \<open>
  The dot product, position by position: the pairs of the two vectors are the entries at
  the positions of the shorter one.
\<close>

lemma dot_product_positions:
  assumes "length v1 \<le> length v2"
  shows "dot_product fl v1 v2 =
           fold (\<lambda>i dot. num_add fl dot (num_mul fl (PyInt (v1 ! i)) (v2 ! i)))
                [0..<length v1] (PyInt 0)"
proof -
  have pairs: "zip v1 v2 = map (\<lambda>i. (v1 ! i, v2 ! i)) [0..<length v1]"
    using assms by (intro nth_equalityI) simp_all
  show ?thesis
    unfolding dot_product_def pairs
    by (simp add: foldl_conv_fold fold_map comp_def)
qed

lemma dotProduct_is_dot_product:
  assumes "length v1 \<le> length v2"
  shows "Kernel_dotProduct fl v1 v2 = Inr (dot_product fl v1 v2)"
  using dotProduct_Inr [OF assms] dot_product_positions [OF assms] by simp

text \<open>
  The value of the dot product is the sum of the products of the entries whenever no
  operation rounds: with exact arithmetic, and with a centroid of ints (as \<open>_init\<close> seeds
  it) whatever the rounding.
\<close>

lemma num_val_exact:
  "num_val (num_add (\<lambda>x. x) a b) = num_val a + num_val b"
  "num_val (num_mul (\<lambda>x. x) a b) = num_val a * num_val b"
  by (cases a; cases b; simp add: num_add_def num_mul_def num_val_def to_float_def)+

lemma dot_product_value_exact:
  assumes "length v1 \<le> length v2" and "\<forall>x. fl x = x"
  shows "num_val (dot_product fl v1 v2) = (\<Sum>k < length v1. of_int (v1 ! k) * num_val (v2 ! k))"
proof -
  from assms(2) have fl: "fl = (\<lambda>x. x)" by (simp add: fun_eq_iff)
  have "num_val (fold (\<lambda>i dot. num_add (\<lambda>x. x) dot (num_mul (\<lambda>x. x) (PyInt (v1 ! i)) (v2 ! i)))
                   [0..<n] (PyInt 0))
        = (\<Sum>k < n. of_int (v1 ! k) * num_val (v2 ! k))" for n
    by (induction n) (simp_all add: num_val_exact, simp_all add: num_val_def)
  then show ?thesis
    using dot_product_positions [OF assms(1), of fl] by (simp add: fl)
qed

lemma dot_product_value_ints:
  assumes "length v1 \<le> length v2" and "\<forall>e \<in> set v2. \<exists>a. e = PyInt a"
  shows "num_val (dot_product fl v1 v2) = (\<Sum>k < length v1. of_int (v1 ! k) * num_val (v2 ! k))"
proof -
  have "\<exists>s. fold (\<lambda>i dot. num_add fl dot (num_mul fl (PyInt (v1 ! i)) (v2 ! i))) [0..<n] (PyInt 0)
              = PyInt s
           \<and> (of_int s :: rat) = (\<Sum>k < n. of_int (v1 ! k) * num_val (v2 ! k))"
    if "n \<le> length v2" for n
    using that
  proof (induction n)
    case 0
    then show ?case by simp
  next
    case (Suc n)
    then obtain s where s: "fold (\<lambda>i dot. num_add fl dot (num_mul fl (PyInt (v1 ! i)) (v2 ! i)))
                              [0..<n] (PyInt 0) = PyInt s"
      "(of_int s :: rat) = (\<Sum>k < n. of_int (v1 ! k) * num_val (v2 ! k))" by auto
    from Suc.prems have "v2 ! n \<in> set v2" by simp
    with assms(2) obtain a where a: "v2 ! n = PyInt a" by auto
    have "fold (\<lambda>i dot. num_add fl dot (num_mul fl (PyInt (v1 ! i)) (v2 ! i))) [0..<Suc n] (PyInt 0)
          = num_add fl (PyInt s) (num_mul fl (PyInt (v1 ! n)) (PyInt a))"
      by (simp add: s(1) a)
    also have "\<dots> = PyInt (s + v1 ! n * a)"
      by (simp add: num_add_def num_mul_def)
    finally have "fold (\<lambda>i dot. num_add fl dot (num_mul fl (PyInt (v1 ! i)) (v2 ! i)))
                    [0..<Suc n] (PyInt 0) = PyInt (s + v1 ! n * a)" .
    moreover have "(of_int (s + v1 ! n * a) :: rat)
                   = (\<Sum>k < Suc n. of_int (v1 ! k) * num_val (v2 ! k))"
      by (simp add: s(2) a num_val_def)
    ultimately show ?case by blast
  qed
  from this [OF assms(1)] obtain s
    where "dot_product fl v1 v2 = PyInt s"
      "(of_int s :: rat) = (\<Sum>k < length v1. of_int (v1 ! k) * num_val (v2 ! k))"
    using dot_product_positions [OF assms(1), of fl] by auto
  then show ?thesis by (simp add: num_val_def)
qed

lemma dotProduct_short_centroid:
  "Kernel_dotProduct (\<lambda>x. x) [1, 1] [PyInt 2] = Inl IndexError"
  by code_simp

lemma computeDot_Inr:
  assumes "\<forall>c \<in> set cs. length (features sq) \<le> length (centroid c)"
  shows "Kmeans_computeDot fl cs sq = Inr (map (\<lambda>c. dot_product fl (features sq) (centroid c)) cs)"
proof -
  have "Kmeans_computeDot fl cs sq
        = Inr (fold (\<lambda>c products. products @ [dot_product fl (features sq) (centroid c)]) cs [])"
    unfolding Kmeans_computeDot_def
  proof (rule for_loop_Inr)
    fix c products assume "c \<in> set cs"
    then have "length (features sq) \<le> length (centroid c)" using assms by simp
    then show "and_then (Kernel_dotProduct fl (features sq) (centroid c)) (\<lambda>dot. Inr (products @ [dot]))
               = Inr (products @ [dot_product fl (features sq) (centroid c)])"
      by (simp add: dotProduct_is_dot_product and_then_def)
  qed
  then show ?thesis by (simp add: fold_snoc_map)
qed

lemma fold_max_greatest:
  "fold (\<lambda>y m. if num_val y > num_val m then y else m) rest x \<in> set (x # rest)
   \<and> (\<forall>y \<in> set (x # rest).
         num_val y \<le> num_val (fold (\<lambda>y m. if num_val y > num_val m then y else m) rest x))"
proof (induction rest arbitrary: x)
  case Nil
  then show ?case by simp
next
  case (Cons y rest)
  let ?x' = "if num_val y > num_val x then y else x"
  from Cons [of ?x'] show ?case by (auto split: if_splits)
qed

lemma fold_last_index:
  "(fold (\<lambda>i idx. if P i then i else idx) [0..<n] a = a \<and> (\<forall>i < n. \<not> P i))
   \<or> (fold (\<lambda>i idx. if P i then i else idx) [0..<n] a < n
       \<and> P (fold (\<lambda>i idx. if P i then i else idx) [0..<n] a)
       \<and> (\<forall>i < n. fold (\<lambda>i idx. if P i then i else idx) [0..<n] a < i \<longrightarrow> \<not> P i))"
proof (induction n)
  case 0
  then show ?case by simp
next
  case (Suc n)
  show ?case
  proof (cases "P n")
    case True
    then show ?thesis by simp
  next
    case False
    with Suc show ?thesis by (auto simp: less_Suc_eq)
  qed
qed

lemma chooseCluster_last_argmax:
  assumes "products \<noteq> []"
  shows "\<exists>j. Kmeans_chooseCluster products = Inr j \<and> is_last_argmax products j"
proof -
  obtain x rest where xs: "products = x # rest" using assms by (cases products) auto
  define target where "target = fold (\<lambda>y m. if num_val y > num_val m then y else m) rest x"
  have max: "py_max products = Inr target"
    by (simp add: py_max_def xs target_def)
  have mem: "target \<in> set products" and ge: "\<forall>y \<in> set products. num_val y \<le> num_val target"
    using fold_max_greatest [of rest x] by (simp_all add: xs target_def)
  define j where "j = fold (\<lambda>i idx. if num_val (products ! i) = num_val target then i else idx)
                        [0..<length products] 0"
  have choose: "Kmeans_chooseCluster products = Inr j"
    by (simp add: Kmeans_chooseCluster_def max and_then_def j_def)
  from mem obtain i where "i < length products" "products ! i = target"
    by (auto simp: in_set_conv_nth)
  then have ex: "\<exists>i < length products. num_val (products ! i) = num_val target" by auto
  from fold_last_index [of "\<lambda>i. num_val (products ! i) = num_val target" "length products" 0] ex
  have j: "j < length products" "num_val (products ! j) = num_val target"
    "\<forall>i < length products. j < i \<longrightarrow> num_val (products ! i) \<noteq> num_val target"
    unfolding j_def by auto
  have "num_val (products ! i) \<le> num_val (products ! j)" if "i < length products" for i
    using ge that j(2) by simp
  moreover have "num_val (products ! i) < num_val (products ! j)"
    if "i < length products" "j < i" for i
  proof -
    have "num_val (products ! i) \<le> num_val target" using ge that by simp
    moreover have "num_val (products ! i) \<noteq> num_val target" using j(3) that by simp
    ultimately show ?thesis using j(2) by simp
  qed
  ultimately have "is_last_argmax products j"
    using j(1) by (simp add: is_last_argmax_def)
  with choose show ?thesis by blast
qed

lemma is_last_argmax_unique:
  assumes "is_last_argmax ps j" "is_last_argmax ps j'"
  shows "j = j'"
proof (rule ccontr)
  assume "j \<noteq> j'"
  then consider "j < j'" | "j' < j" by linarith
  then show False
  proof cases
    case 1
    with assms have "num_val (ps ! j') < num_val (ps ! j)" "num_val (ps ! j) \<le> num_val (ps ! j')"
      by (simp_all add: is_last_argmax_def)
    then show False by simp
  next
    case 2
    with assms have "num_val (ps ! j) < num_val (ps ! j')" "num_val (ps ! j') \<le> num_val (ps ! j)"
      by (simp_all add: is_last_argmax_def)
    then show False by simp
  qed
qed

lemma chosen_unique: "chosen fl cs sq j \<Longrightarrow> chosen fl cs sq j' \<Longrightarrow> j = j'"
  unfolding chosen_def by (rule is_last_argmax_unique)

lemma chosen_centroids:
  assumes "map centroid cs = map centroid cs'"
  shows "chosen fl cs sq j = chosen fl cs' sq j"
proof -
  have "map (\<lambda>c. dot_product fl (features sq) (centroid c)) xs
        = map (dot_product fl (features sq)) (map centroid xs)" for xs
    by simp
  then show ?thesis unfolding chosen_def using assms by metis
qed

lemma assign_one_chosen:
  assumes "cs \<noteq> []" and "\<forall>c \<in> set cs. length (features sq) \<le> length (centroid c)"
  shows "\<exists>j < length cs. chosen fl cs sq j \<and> assign_one fl sq cs = Inr (cs[j := Cluster_add (cs ! j) sq])"
proof -
  let ?dots = "map (\<lambda>c. dot_product fl (features sq) (centroid c)) cs"
  have dots: "Kmeans_computeDot fl cs sq = Inr ?dots" by (rule computeDot_Inr [OF assms(2)])
  from assms(1) have "?dots \<noteq> []" by simp
  from chooseCluster_last_argmax [OF this] obtain j
    where j: "Kmeans_chooseCluster ?dots = Inr j" "is_last_argmax ?dots j" by blast
  then have lt: "j < length cs" by (simp add: is_last_argmax_def)
  then have "py_index cs (int j) = Inr (cs ! j)" by (simp add: py_index_def)
  then have "assign_one fl sq cs = Inr (cs[j := Cluster_add (cs ! j) sq])"
    by (simp add: assign_one_def dots j(1) and_then_def)
  moreover have "chosen fl cs sq j" using j(2) by (simp add: chosen_def)
  ultimately show ?thesis using lt by blast
qed

lemma assign_loop:
  assumes "cs \<noteq> []"
      and "\<forall>sq \<in> set sqs. \<forall>c \<in> set cs. length (features sq) \<le> length (centroid c)"
  shows "\<exists>cs'. for_loop (assign_one fl) sqs cs = Inr cs' \<and> length cs' = length cs
           \<and> (\<forall>j < length cs.
                 centroid (cs' ! j) = centroid (cs ! j)
                 \<and> log_list (cs' ! j) = log_list (cs ! j)
                 \<and> members (cs' ! j) = members (cs ! j) @ filter (\<lambda>sq. chosen fl cs sq j) sqs)"
  using assms
proof (induction sqs arbitrary: cs)
  case Nil
  then show ?case by simp
next
  case (Cons sq sqs)
  from Cons.prems have here: "\<forall>c \<in> set cs. length (features sq) \<le> length (centroid c)" by simp
  from assign_one_chosen [OF Cons.prems(1) here] obtain j0
    where j0: "j0 < length cs" "chosen fl cs sq j0"
      and step: "assign_one fl sq cs = Inr (cs[j0 := Cluster_add (cs ! j0) sq])" by blast
  define cs1 where "cs1 = cs[j0 := Cluster_add (cs ! j0) sq]"
  have cen: "map centroid cs1 = map centroid cs"
    using j0(1) by (simp add: cs1_def map_update Cluster_add_def list_update_same_conv)
  have ne1: "cs1 \<noteq> []" using Cons.prems(1) by (simp add: cs1_def)
  have "set (map centroid cs1) = set (map centroid cs)" using cen by simp
  then have "\<forall>sq \<in> set sqs. \<forall>c \<in> set cs1. length (features sq) \<le> length (centroid c)"
  proof (intro ballI)
    fix s c assume s: "s \<in> set sqs" and c: "c \<in> set cs1"
    then have "centroid c \<in> set (map centroid cs)" using cen by (metis imageI set_map)
    then obtain c0 where "c0 \<in> set cs" "centroid c0 = centroid c" by auto
    then show "length (features s) \<le> length (centroid c)"
      using Cons.prems(2) s by (metis list.set_intros(2))
  qed
  from Cons.IH [OF ne1 this] obtain cs'
    where rest: "for_loop (assign_one fl) sqs cs1 = Inr cs'" "length cs' = length cs1"
      and each: "\<forall>j < length cs1.
                 centroid (cs' ! j) = centroid (cs1 ! j)
                 \<and> log_list (cs' ! j) = log_list (cs1 ! j)
                 \<and> members (cs' ! j) = members (cs1 ! j) @ filter (\<lambda>sq. chosen fl cs1 sq j) sqs"
    by blast
  have run: "for_loop (assign_one fl) (sq # sqs) cs = Inr cs'"
    using step rest(1) by (simp add: and_then_def cs1_def)
  have len: "length cs' = length cs" using rest(2) by (simp add: cs1_def)
  have "centroid (cs' ! j) = centroid (cs ! j)
        \<and> log_list (cs' ! j) = log_list (cs ! j)
        \<and> members (cs' ! j) = members (cs ! j) @ filter (\<lambda>s. chosen fl cs s j) (sq # sqs)"
    if j: "j < length cs" for j
  proof -
    have same: "chosen fl cs1 s j = chosen fl cs s j" for s
      by (rule chosen_centroids [OF cen])
    have j1: "j < length cs1" using j by (simp add: cs1_def)
    have "filter (\<lambda>s. chosen fl cs1 s j) sqs = filter (\<lambda>s. chosen fl cs s j) sqs"
      by (simp add: same)
    with each j1 have e: "centroid (cs' ! j) = centroid (cs1 ! j)"
      "log_list (cs' ! j) = log_list (cs1 ! j)"
      "members (cs' ! j) = members (cs1 ! j) @ filter (\<lambda>s. chosen fl cs s j) sqs"
      by simp_all
    show ?thesis
    proof (cases "j = j0")
      case True
      then have "chosen fl cs sq j" using j0(2) by simp
      then show ?thesis using e True j by (simp add: cs1_def Cluster_add_def)
    next
      case False
      then have "\<not> chosen fl cs sq j" using j0(2) chosen_unique by blast
      then show ?thesis using e False j by (simp add: cs1_def)
    qed
  qed
  with run len show ?case by blast
qed

text \<open>
  C1: when there is at least one cluster and no feature vector is longer than a centroid,
  \<open>_assignSeqs\<close> does not raise, and for every sequence the products that \<open>_computeDot\<close>
  returns are the dot products of its feature vector with the centroid of every cluster,
  in the order of the clusters. The value of such a dot product is the sum of the
  products of the paired entries, under exact arithmetic and, for a centroid of ints,
  under every rounding. Exactly one index is the last position of the greatest dot
  product, and the sequence is appended to the members of the cluster at that index and
  of no other, so among several clusters with the greatest dot product the one with the
  highest index receives it. Centroids and logs are unchanged.
\<close>

theorem Kmeans_assignSeqs_last_argmax:
  assumes "clusters self \<noteq> []"
      and "\<forall>sq \<in> set (seqs self). \<forall>c \<in> set (clusters self).
             length (features sq) \<le> length (centroid c)"
  shows "(\<exists>cs'. Kmeans_assignSeqs fl self = Inr (self\<lparr>clusters := cs'\<rparr>)
            \<and> length cs' = length (clusters self)
            \<and> (\<forall>j < length (clusters self).
                  centroid (cs' ! j) = centroid (clusters self ! j)
                  \<and> log_list (cs' ! j) = log_list (clusters self ! j)
                  \<and> members (cs' ! j) =
                      members (clusters self ! j)
                      @ filter (\<lambda>sq. chosen fl (clusters self) sq j) (seqs self)))
         \<and> (\<forall>sq \<in> set (seqs self).
               Kmeans_computeDot fl (clusters self) sq
                 = Inr (map (\<lambda>c. dot_product fl (features sq) (centroid c)) (clusters self))
               \<and> (\<forall>c \<in> set (clusters self).
                     Kernel_dotProduct fl (features sq) (centroid c)
                       = Inr (dot_product fl (features sq) (centroid c))
                     \<and> ((\<forall>x. fl x = x) \<or> (\<forall>e \<in> set (centroid c). \<exists>a. e = PyInt a) \<longrightarrow>
                          num_val (dot_product fl (features sq) (centroid c))
                            = (\<Sum>k < length (features sq).
                                 of_int (features sq ! k) * num_val (centroid c ! k))))
               \<and> (\<exists>j. is_last_argmax
                          (map (\<lambda>c. dot_product fl (features sq) (centroid c)) (clusters self)) j
                        \<and> (\<forall>j'. chosen fl (clusters self) sq j' \<longleftrightarrow> j' = j)))"
proof -
  from assign_loop [OF assms, of fl] obtain cs'
    where run: "for_loop (assign_one fl) (seqs self) (clusters self) = Inr cs'"
      and rest: "length cs' = length (clusters self)"
        "\<forall>j < length (clusters self).
                  centroid (cs' ! j) = centroid (clusters self ! j)
                  \<and> log_list (cs' ! j) = log_list (clusters self ! j)
                  \<and> members (cs' ! j) =
                      members (clusters self ! j)
                      @ filter (\<lambda>sq. chosen fl (clusters self) sq j) (seqs self)"
    by blast
  from run have "Kmeans_assignSeqs fl self = Inr (self\<lparr>clusters := cs'\<rparr>)"
    by (simp add: Kmeans_assignSeqs_def and_then_def)
  with rest have whole: "\<exists>cs'. Kmeans_assignSeqs fl self = Inr (self\<lparr>clusters := cs'\<rparr>)
            \<and> length cs' = length (clusters self)
            \<and> (\<forall>j < length (clusters self).
                  centroid (cs' ! j) = centroid (clusters self ! j)
                  \<and> log_list (cs' ! j) = log_list (clusters self ! j)
                  \<and> members (cs' ! j) =
                      members (clusters self ! j)
                      @ filter (\<lambda>sq. chosen fl (clusters self) sq j) (seqs self))"
    by blast
  have each: "Kmeans_computeDot fl (clusters self) sq
                 = Inr (map (\<lambda>c. dot_product fl (features sq) (centroid c)) (clusters self))
               \<and> (\<forall>c \<in> set (clusters self).
                     Kernel_dotProduct fl (features sq) (centroid c)
                       = Inr (dot_product fl (features sq) (centroid c))
                     \<and> ((\<forall>x. fl x = x) \<or> (\<forall>e \<in> set (centroid c). \<exists>a. e = PyInt a) \<longrightarrow>
                          num_val (dot_product fl (features sq) (centroid c))
                            = (\<Sum>k < length (features sq).
                                 of_int (features sq ! k) * num_val (centroid c ! k))))
               \<and> (\<exists>j. is_last_argmax
                          (map (\<lambda>c. dot_product fl (features sq) (centroid c)) (clusters self)) j
                        \<and> (\<forall>j'. chosen fl (clusters self) sq j' \<longleftrightarrow> j' = j))"
    if "sq \<in> set (seqs self)" for sq
  proof (intro conjI ballI)
    from that assms(2)
    have fits: "\<forall>c \<in> set (clusters self). length (features sq) \<le> length (centroid c)" by simp
    show "Kmeans_computeDot fl (clusters self) sq
            = Inr (map (\<lambda>c. dot_product fl (features sq) (centroid c)) (clusters self))"
      by (rule computeDot_Inr [OF fits])
    from assign_one_chosen [OF assms(1) fits, of fl] obtain j
      where j: "chosen fl (clusters self) sq j" by blast
    then have "is_last_argmax
                 (map (\<lambda>c. dot_product fl (features sq) (centroid c)) (clusters self)) j"
      by (simp add: chosen_def)
    moreover have "chosen fl (clusters self) sq j' \<longleftrightarrow> j' = j" for j'
      using j chosen_unique by blast
    ultimately show "\<exists>j. is_last_argmax
                          (map (\<lambda>c. dot_product fl (features sq) (centroid c)) (clusters self)) j
                        \<and> (\<forall>j'. chosen fl (clusters self) sq j' \<longleftrightarrow> j' = j)"
      by blast
    fix c assume "c \<in> set (clusters self)"
    with fits have len: "length (features sq) \<le> length (centroid c)" by simp
    show "Kernel_dotProduct fl (features sq) (centroid c)
            = Inr (dot_product fl (features sq) (centroid c))"
      by (rule dotProduct_is_dot_product [OF len])
    show "(\<forall>x. fl x = x) \<or> (\<forall>e \<in> set (centroid c). \<exists>a. e = PyInt a) \<longrightarrow>
            num_val (dot_product fl (features sq) (centroid c))
              = (\<Sum>k < length (features sq). of_int (features sq ! k) * num_val (centroid c ! k))"
      using dot_product_value_exact [OF len, of fl] dot_product_value_ints [OF len, of fl]
      by blast
  qed
  from whole each show ?thesis by blast
qed

theorem Kmeans_assignSeqs_last_argmax_witness:
  "clusters tie_example \<noteq> []
   \<and> list_all (\<lambda>sq. list_all (\<lambda>c. length (features sq) \<le> length (centroid c))
                      (clusters tie_example)) (seqs tie_example)
   \<and> Kmeans_computeDot (\<lambda>x. x) (clusters tie_example) (example_seq ''AT'' [1, 1])
       = Inr [PyInt 5, PyFloat 5, PyInt 2]
   \<and> num_val (dot_product (\<lambda>x. x) [1, 1] [PyFloat 3, PyFloat 2]) = 1 * 3 + 1 * 2
   \<and> (\<exists>cs'. Kmeans_assignSeqs (\<lambda>x. x) tie_example = Inr (tie_example\<lparr>clusters := cs'\<rparr>)
         \<and> map members cs' = [[], [example_seq ''AT'' [1, 1]], []])"
proof -
  let ?cs = "clusters tie_example"
  let ?sq = "example_seq ''AT'' [1, 1]"
  have ne: "?cs \<noteq> []" by (simp add: tie_example_def)
  have fits: "\<forall>sq \<in> set (seqs tie_example). \<forall>c \<in> set ?cs.
                length (features sq) \<le> length (centroid c)"
    by (simp add: tie_example_def example_seq_def)
  note facts = Kmeans_assignSeqs_last_argmax [OF ne fits, of "\<lambda>x. x"]
  have sq: "?sq \<in> set (seqs tie_example)" by (simp add: tie_example_def)
  have c1: "?cs ! 1 \<in> set ?cs" by (simp add: tie_example_def)
  have prods: "map (\<lambda>c. dot_product (\<lambda>x. x) (features ?sq) (centroid c)) ?cs
                = [PyInt 5, PyFloat 5, PyInt 2]"
    by code_simp
  from facts [THEN conjunct2, rule_format, OF sq, THEN conjunct1] prods
  have dots: "Kmeans_computeDot (\<lambda>x. x) ?cs ?sq = Inr [PyInt 5, PyFloat 5, PyInt 2]"
    by simp
  from facts [THEN conjunct2, rule_format, OF sq, THEN conjunct2, THEN conjunct1,
      rule_format, OF c1, THEN conjunct2]
  have "num_val (dot_product (\<lambda>x. x) (features ?sq) (centroid (?cs ! 1)))
        = (\<Sum>k < length (features ?sq). of_int (features ?sq ! k) * num_val (centroid (?cs ! 1) ! k))"
    by simp
  moreover have "features ?sq = [1, 1]" "centroid (?cs ! 1) = [PyFloat 3, PyFloat 2]"
    by (simp_all add: example_seq_def tie_example_def)
  ultimately have sum: "num_val (dot_product (\<lambda>x. x) [1, 1] [PyFloat 3, PyFloat 2]) = 1 * 3 + 1 * 2"
    by (simp add: num_val_def lessThan_Suc numeral_2_eq_2)
  have len: "length ?cs = 3" by (simp add: tie_example_def)
  have m0: "members (?cs ! 0) @ filter (\<lambda>sq. chosen (\<lambda>x. x) ?cs sq 0) (seqs tie_example) = []"
    and m1: "members (?cs ! 1) @ filter (\<lambda>sq. chosen (\<lambda>x. x) ?cs sq 1) (seqs tie_example)
             = [example_seq ''AT'' [1, 1]]"
    and m2: "members (?cs ! 2) @ filter (\<lambda>sq. chosen (\<lambda>x. x) ?cs sq 2) (seqs tie_example) = []"
    by code_simp+
  from facts obtain cs'
    where run: "Kmeans_assignSeqs (\<lambda>x. x) tie_example = Inr (tie_example\<lparr>clusters := cs'\<rparr>)"
      and l: "length cs' = length ?cs"
      and each: "\<forall>j < length ?cs. members (cs' ! j) =
                   members (?cs ! j) @ filter (\<lambda>sq. chosen (\<lambda>x. x) ?cs sq j) (seqs tie_example)"
    by blast
  from each len m0 m1 m2
  have "members (cs' ! 0) = []" "members (cs' ! 1) = [example_seq ''AT'' [1, 1]]"
    "members (cs' ! 2) = []"
    by simp_all
  moreover from l len obtain a b c where "cs' = [a, b, c]"
    by (auto simp: numeral_3_eq_3 length_Suc_conv)
  ultimately have "map members cs' = [[], [example_seq ''AT'' [1, 1]], []]"
    by simp
  with run ne fits dots sum show ?thesis
    by (auto simp: list_all_iff)
qed

section \<open>The run loop\<close>

lemma for_loop_grows:
  assumes "for_loop body xs s = Inr s'"
      and "\<And>x t t'. x \<in> set xs \<Longrightarrow> body x t = Inr t' \<Longrightarrow> m t' = Suc (m t)"
  shows "m s' = m s + length xs"
  using assms
proof (induction xs arbitrary: s)
  case Nil
  then show ?case by simp
next
  case (Cons x xs)
  from Cons.prems(1) obtain t where t: "body x s = Inr t" "for_loop body xs t = Inr s'"
    by (auto simp: and_then_def split: sum.splits)
  have "m t = Suc (m s)" using Cons.prems(2) [of x s t] t(1) by simp
  moreover have "m s' = m t + length xs"
  proof (rule Cons.IH [OF t(2)])
    fix y u u' assume "y \<in> set xs" "body y u = Inr u'"
    then show "m u' = Suc (m u)" using Cons.prems(2) [of y u u'] by simp
  qed
  ultimately show ?case by simp
qed

lemma for_loop_keeps:
  assumes "for_loop body xs s = Inr s'"
      and "\<And>x t t'. x \<in> set xs \<Longrightarrow> body x t = Inr t' \<Longrightarrow> I t \<Longrightarrow> I t'"
      and "I s"
  shows "I s'"
  using assms
proof (induction xs arbitrary: s)
  case Nil
  then show ?case by simp
next
  case (Cons x xs)
  from Cons.prems(1) obtain t where t: "body x s = Inr t" "for_loop body xs t = Inr s'"
    by (auto simp: and_then_def split: sum.splits)
  have "I t" using Cons.prems(2) [of x s t] t(1) Cons.prems(3) by simp
  show ?case
  proof (rule Cons.IH [OF t(2) _ \<open>I t\<close>])
    fix y u u' assume "y \<in> set xs" "body y u = Inr u'" "I u"
    then show "I u'" using Cons.prems(2) [of y u u'] by simp
  qed
qed

lemma initSequences_frame:
  assumes "Kmeans_initSequences self = Inr s'"
  shows "clusters s' = clusters self \<and> kmeans_k s' = kmeans_k self
         \<and> kmeans_kernel s' = kmeans_kernel self"
  using assms
  by (auto simp: Kmeans_initSequences_def Let_def and_then_def split: sum.splits)

lemma initClusters_count:
  assumes "Kmeans_initClusters self g = Inr (s', g')"
  shows "kmeans_k s' = kmeans_k self
         \<and> length (clusters s') = length (clusters self) + nat (kmeans_k self)"
proof -
  let ?body = "\<lambda>(_::int) (cs, g').
                and_then (Cluster_init Cluster_new (int (length (kernel_kmers (kmeans_kernel self)))) g')
                  (\<lambda>(c, g''). Inr (cs @ [c], g''))"
  from assms obtain cs where
    loop: "for_loop ?body (py_range (kmeans_k self)) (clusters self, g) = Inr (cs, g')"
    and s': "s' = self\<lparr>clusters := cs\<rparr>"
    by (auto simp: Kmeans_initClusters_def Let_def and_then_def split: sum.splits prod.splits)
  have "(length \<circ> fst) (cs, g') = (length \<circ> fst) (clusters self, g) + length (py_range (kmeans_k self))"
    by (rule for_loop_grows [OF loop])
       (auto simp: and_then_def split: sum.splits prod.splits)
  then show ?thesis by (simp add: s' py_range_def)
qed

lemma assign_one_length: "assign_one fl sq cs = Inr cs' \<Longrightarrow> length cs' = length cs"
  by (auto simp: assign_one_def and_then_def split: sum.splits)

lemma assignSeqs_count:
  assumes "Kmeans_assignSeqs fl self = Inr s'"
  shows "kmeans_k s' = kmeans_k self \<and> length (clusters s') = length (clusters self)"
proof -
  from assms obtain cs where
    loop: "for_loop (assign_one fl) (seqs self) (clusters self) = Inr cs"
    and s': "s' = self\<lparr>clusters := cs\<rparr>"
    by (auto simp: Kmeans_assignSeqs_def and_then_def split: sum.splits)
  have "length cs = length (clusters self)"
    by (rule for_loop_keeps [OF loop, of "\<lambda>t. length t = length (clusters self)"])
       (simp_all add: assign_one_length)
  then show ?thesis by (simp add: s')
qed

lemma updateClusters_count:
  assumes "Kmeans_updateClusters ser fl self = Inr s'"
  shows "kmeans_k s' = kmeans_k self \<and> length (clusters s') = length (clusters self)"
proof -
  let ?body = "\<lambda>c out. and_then (Cluster_update fl (Cluster_record ser c)) (\<lambda>c'. Inr (out @ [c']))"
  from assms obtain cs where
    loop: "for_loop ?body (clusters self) [] = Inr cs"
    and s': "s' = self\<lparr>clusters := cs\<rparr>"
    by (auto simp: Kmeans_updateClusters_def and_then_def split: sum.splits)
  have "length cs = length ([]::cluster list) + length (clusters self)"
    by (rule for_loop_grows [OF loop]) (auto simp: and_then_def split: sum.splits)
  then show ?thesis by (simp add: s')
qed

lemma execute_pass_count:
  assumes "execute_pass ser fl self = Inr s'"
  shows "kmeans_k s' = kmeans_k self \<and> length (clusters s') = length (clusters self)"
proof -
  from assms obtain t where t: "Kmeans_assignSeqs fl (Kmeans_clearClusters self) = Inr t"
    "Kmeans_updateClusters ser fl t = Inr s'"
    by (auto simp: execute_pass_def and_then_def split: sum.splits)
  from assignSeqs_count [OF t(1)] updateClusters_count [OF t(2)]
  show ?thesis by (simp add: Kmeans_clearClusters_def)
qed

lemma checkClusters_all:
  assumes "length (clusters self) = nat (kmeans_k self)" and "0 \<le> kmeans_k self"
  shows "Kmeans_checkClusters ser self \<longleftrightarrow> list_all (Cluster_check ser) (clusters self)"
proof -
  have "length (filter P xs) = length xs \<longleftrightarrow> list_all P xs" for P :: "cluster \<Rightarrow> bool" and xs
  proof (induction xs)
    case Nil
    then show ?case by simp
  next
    case (Cons a xs)
    from Cons length_filter_le [of P xs] show ?case
      by (auto simp del: length_filter_le)
  qed
  then have all: "length (filter (Cluster_check ser) (clusters self)) = length (clusters self)
                  \<longleftrightarrow> list_all (Cluster_check ser) (clusters self)" .
  have "Kmeans_checkClusters ser self
        \<longleftrightarrow> int (length (filter (Cluster_check ser) (clusters self))) = kmeans_k self"
    using fold_count_if [of "Cluster_check ser" "clusters self" 0]
    by (simp add: Kmeans_checkClusters_def Let_def)
  also have "\<dots> \<longleftrightarrow> length (filter (Cluster_check ser) (clusters self)) = length (clusters self)"
    using assms by auto
  finally show ?thesis using all by simp
qed

lemma execute_loop_stops:
  assumes "execute_loop ser fl limit self run entered = Inr (self', run', entered')"
      and "I self"
      and "\<And>s s'. I s \<Longrightarrow> execute_pass ser fl s = Inr s' \<Longrightarrow> I s'"
  shows "\<exists>new. entered' = entered @ new \<and> run' = run + int (length new)
           \<and> (\<forall>s \<in> set new. \<not> Kmeans_checkClusters ser s \<and> I s)
           \<and> I self'
           \<and> (Kmeans_checkClusters ser self' \<or> limit \<le> run')
           \<and> (new \<noteq> [] \<longrightarrow> run' \<le> limit)"
  using assms
proof (induction ser fl limit self run entered rule: execute_loop.induct)
  case (1 ser fl limit self run entered)
  show ?case
  proof (cases "(\<not> Kmeans_checkClusters ser self) \<and> run < limit")
    case False
    with "1.prems"(1) have "self' = self" "run' = run" "entered' = entered"
      by (simp_all add: execute_loop.simps [of ser fl limit self run entered])
    with False "1.prems"(2) show ?thesis by auto
  next
    case True
    with "1.prems"(1) obtain s1 where pass: "execute_pass ser fl self = Inr s1"
      and rest: "execute_loop ser fl limit s1 (run + 1) (entered @ [self]) = Inr (self', run', entered')"
      by (auto simp: execute_loop.simps [of ser fl limit self run entered] split: sum.splits)
    have "I s1" using "1.prems"(2,3) pass by blast
    from "1.IH" [OF True pass rest this] "1.prems"(3) obtain new
      where new: "entered' = (entered @ [self]) @ new" "run' = run + 1 + int (length new)"
        "\<forall>s \<in> set new. \<not> Kmeans_checkClusters ser s \<and> I s" "I self'"
        "Kmeans_checkClusters ser self' \<or> limit \<le> run'" "new \<noteq> [] \<longrightarrow> run' \<le> limit"
      by blast
    have "run' \<le> limit"
    proof (cases "new = []")
      case True
      then show ?thesis using new(2) \<open>(\<not> Kmeans_checkClusters ser self) \<and> run < limit\<close> by simp
    next
      case False
      then show ?thesis using new(6) by simp
    qed
    with new True "1.prems"(2) show ?thesis
      by (intro exI [of _ "self # new"]) auto
  qed
qed

lemma for_loop_total:
  assumes "I s"
      and "\<And>x t. x \<in> set xs \<Longrightarrow> I t \<Longrightarrow> \<exists>t'. body x t = Inr t' \<and> I t'"
  shows "\<exists>s'. for_loop body xs s = Inr s' \<and> I s'"
  using assms
proof (induction xs arbitrary: s)
  case Nil
  then show ?case by simp
next
  case (Cons x xs)
  from Cons.prems(2) [of x s] Cons.prems(1) obtain t where t: "body x s = Inr t" "I t"
    by auto
  have "\<exists>s'. for_loop body xs t = Inr s' \<and> I s'"
  proof (rule Cons.IH [OF t(2)])
    fix y u assume "y \<in> set xs" "I u"
    then show "\<exists>u'. body y u = Inr u' \<and> I u'" using Cons.prems(2) [of y u] by simp
  qed
  with t(1) show ?case by (simp add: and_then_def)
qed

lemma featureVector_fits:
  assumes "kernel_fits kern"
  shows "\<exists>v. featureVector kern (kmers (buildKmers sq (kernel_size kern))) = Inr v
           \<and> length v = length (kernel_kmers kern)"
proof (cases kern)
  case (Spectrum vocab sz nm)
  then show ?thesis by (simp add: featureVector_def Spectrum_featureVector_eq)
next
  case (Mismatch vocab sz nm m)
  with assms have sz: "0 < sz" and vocab: "\<forall>w \<in> set vocab. int (length w) = sz"
    by (simp_all add: kernel_fits_def)
  have "\<forall>c \<in> set (kmers (buildKmers sq sz)). \<forall>w \<in> set vocab. length c = length w"
    using buildKmers_lengths [OF sz, of sq] vocab by fastforce
  from Mismatch_featureVector_eq [OF this, of m] show ?thesis
    using Mismatch by (simp add: featureVector_def)
qed

lemma initSequences_total:
  assumes "kernel_fits (kmeans_kernel self)"
  shows "\<exists>sqs. Kmeans_initSequences self = Inr (self\<lparr>seqs := sqs\<rparr>)
           \<and> (\<forall>sq \<in> set sqs. length (features sq) = length (kernel_kmers (kmeans_kernel self)))"
proof -
  let ?n = "length (kernel_kmers (kmeans_kernel self))"
  let ?body = "\<lambda>sq out.
                (let sq' = buildKmers sq (kernel_size (kmeans_kernel self))
                 in and_then (featureVector (kmeans_kernel self) (kmers sq')) (\<lambda>v.
                      Inr (out @ [sq'\<lparr>features := v\<rparr>])))"
  have "\<exists>sqs. for_loop ?body (seqs self) [] = Inr sqs \<and> (\<forall>sq \<in> set sqs. length (features sq) = ?n)"
  proof (rule for_loop_total)
    show "\<forall>sq \<in> set ([]::sequence list). length (features sq) = ?n" by simp
  next
    fix sq and t :: "sequence list"
    assume t: "\<forall>sq \<in> set t. length (features sq) = ?n"
    from featureVector_fits [OF assms, of sq] obtain v
      where "featureVector (kmeans_kernel self)
               (kmers (buildKmers sq (kernel_size (kmeans_kernel self)))) = Inr v"
        "length v = ?n" by blast
    with t show "\<exists>t'. ?body sq t = Inr t' \<and> (\<forall>sq \<in> set t'. length (features sq) = ?n)"
      by (simp add: Let_def and_then_def)
  qed
  then show ?thesis
    by (auto simp: Kmeans_initSequences_def Let_def and_then_def)
qed

lemma Cluster_init_total:
  "\<exists>c g'. Cluster_init Cluster_new sz g = Inr (c, g') \<and> length (centroid c) = nat sz"
proof -
  let ?body = "\<lambda>(_::int) (acc, g').
                and_then (random_choice (py_range sz) g') (\<lambda>(x, g''). Inr (acc @ [PyInt x], g''))"
  have step: "\<exists>t'. ?body x t = Inr t' \<and> (length \<circ> fst) t' = Suc ((length \<circ> fst) t)"
    if "x \<in> set (py_range sz)" for x and t :: "pynum list \<times> rng"
  proof -
    from that have "py_range sz \<noteq> []" by auto
    then show ?thesis
      by (cases t) (simp add: random_choice_def and_then_def)
  qed
  have "\<exists>s'. for_loop ?body (py_range sz) ([], g) = Inr s' \<and> True"
    by (rule for_loop_total [of "\<lambda>_. True"]) (use step in blast)+
  then obtain acc g' where loop: "for_loop ?body (py_range sz) ([], g) = Inr (acc, g')"
    by (metis surj_pair)
  have "(length \<circ> fst) (acc, g') = (length \<circ> fst) (([]::pynum list), g) + length (py_range sz)"
  proof (rule for_loop_grows [OF loop])
    fix x and t t' :: "pynum list \<times> rng"
    assume "x \<in> set (py_range sz)" "?body x t = Inr t'"
    with step [of x t] show "(length \<circ> fst) t' = Suc ((length \<circ> fst) t)" by auto
  qed
  then have "length acc = nat sz" by (simp add: py_range_def)
  with loop show ?thesis
    by (simp add: Cluster_init_def Let_def and_then_def)
qed

lemma initClusters_total:
  assumes "clusters self = []"
  shows "\<exists>cs g'. Kmeans_initClusters self g = Inr (self\<lparr>clusters := cs\<rparr>, g')
           \<and> length cs = nat (kmeans_k self)
           \<and> (\<forall>c \<in> set cs. length (centroid c) = length (kernel_kmers (kmeans_kernel self)))"
proof -
  let ?n = "length (kernel_kmers (kmeans_kernel self))"
  let ?body = "\<lambda>(_::int) (cs, g').
                and_then (Cluster_init Cluster_new (int ?n) g') (\<lambda>(c, g''). Inr (cs @ [c], g''))"
  let ?I = "\<lambda>t :: cluster list \<times> rng. \<forall>c \<in> set (fst t). length (centroid c) = ?n"
  have "\<exists>s'. for_loop ?body (py_range (kmeans_k self)) (clusters self, g) = Inr s' \<and> ?I s'"
  proof (rule for_loop_total)
    show "?I (clusters self, g)" using assms by simp
  next
    fix x and t :: "cluster list \<times> rng"
    assume t: "?I t"
    obtain cs g1 where tt: "t = (cs, g1)" by (cases t)
    from Cluster_init_total [of "int ?n" g1] obtain c g2
      where "Cluster_init Cluster_new (int ?n) g1 = Inr (c, g2)" "length (centroid c) = ?n"
      by auto
    with t tt show "\<exists>t'. ?body x t = Inr t' \<and> ?I t'"
      by (simp add: and_then_def)
  qed
  then obtain cs g' where
    loop: "for_loop ?body (py_range (kmeans_k self)) (clusters self, g) = Inr (cs, g')"
    and dims: "\<forall>c \<in> set cs. length (centroid c) = ?n"
    by (metis fst_conv surj_pair)
  then have run: "Kmeans_initClusters self g = Inr (self\<lparr>clusters := cs\<rparr>, g')"
    by (simp add: Kmeans_initClusters_def Let_def and_then_def)
  from initClusters_count [OF run] assms have "length cs = nat (kmeans_k self)" by simp
  with run dims show ?thesis by blast
qed

lemma init_total:
  assumes "1 \<le> kk" and "kernel_fits kern"
  shows "\<exists>s g'. Kmeans_init (Kmeans_new sqs kern kk) g = Inr (s, g') \<and> dims_agree s"
proof -
  let ?self = "Kmeans_new sqs kern kk"
  have fits: "kernel_fits (kmeans_kernel ?self)" using assms(2) by (simp add: Kmeans_new_def)
  from initSequences_total [OF fits] obtain sqs'
    where s1: "Kmeans_initSequences ?self = Inr (?self\<lparr>seqs := sqs'\<rparr>)"
      and f: "\<forall>sq \<in> set sqs'. length (features sq) = length (kernel_kmers kern)"
    by (auto simp: Kmeans_new_def)
  let ?s1 = "?self\<lparr>seqs := sqs'\<rparr>"
  have "clusters ?s1 = []" by (simp add: Kmeans_new_def)
  from initClusters_total [OF this, of g] obtain cs g'
    where s2: "Kmeans_initClusters ?s1 g = Inr (?s1\<lparr>clusters := cs\<rparr>, g')"
      and n: "length cs = nat kk"
      and c: "\<forall>c \<in> set cs. length (centroid c) = length (kernel_kmers kern)"
    by (auto simp: Kmeans_new_def)
  have "cs \<noteq> []" using n assms(1) by auto
  then have "dims_agree (?s1\<lparr>clusters := cs\<rparr>)"
    using f c by (simp add: dims_agree_def)
  moreover have "Kmeans_init ?self g = Inr (?s1\<lparr>clusters := cs\<rparr>, g')"
    using s1 s2 by (simp add: Kmeans_init_def and_then_def)
  ultimately show ?thesis by blast
qed

lemma Cluster_update_total:
  assumes "\<forall>m \<in> set (members c). length (centroid c) \<le> length (features m)"
  shows "\<exists>c'. Cluster_update fl (Cluster_record ser c) = Inr c'
           \<and> length (centroid c') = length (centroid c)"
proof (cases "members c = []")
  case True
  then show ?thesis by (simp add: Cluster_update_def Cluster_record_def)
next
  case False
  let ?r = "Cluster_record ser c"
  have "members ?r \<noteq> []" using False by (simp add: Cluster_record_def)
  moreover have "\<forall>m \<in> set (members ?r). length (centroid ?r) \<le> length (features m)"
    using assms by (simp add: Cluster_record_def)
  ultimately show ?thesis
    using Cluster_update_nonempty [of ?r fl] by (simp add: Cluster_record_def)
qed

lemma updateClusters_total:
  assumes "\<forall>c \<in> set (clusters self). \<forall>m \<in> set (members c).
             length (centroid c) \<le> length (features m)"
  shows "\<exists>cs'. Kmeans_updateClusters ser fl self = Inr (self\<lparr>clusters := cs'\<rparr>)
           \<and> map (\<lambda>c. length (centroid c)) cs' = map (\<lambda>c. length (centroid c)) (clusters self)"
proof -
  define u where "u c = projr (Cluster_update fl (Cluster_record ser c))" for c
  let ?body = "\<lambda>c out. and_then (Cluster_update fl (Cluster_record ser c)) (\<lambda>c'. Inr (out @ [c']))"
  have u: "Cluster_update fl (Cluster_record ser c) = Inr (u c)
           \<and> length (centroid (u c)) = length (centroid c)"
    if "c \<in> set (clusters self)" for c
  proof -
    from Cluster_update_total [of c fl ser] assms that obtain c'
      where "Cluster_update fl (Cluster_record ser c) = Inr c'"
        "length (centroid c') = length (centroid c)" by blast
    then show ?thesis by (simp add: u_def)
  qed
  have "for_loop ?body (clusters self) [] = Inr (fold (\<lambda>c out. out @ [u c]) (clusters self) [])"
  proof (rule for_loop_Inr)
    fix c and acc :: "cluster list"
    assume "c \<in> set (clusters self)"
    then have "Cluster_update fl (Cluster_record ser c) = Inr (u c)" using u by blast
    then show "?body c acc = Inr (acc @ [u c])" by (simp add: and_then_def)
  qed
  then have "Kmeans_updateClusters ser fl self = Inr (self\<lparr>clusters := map u (clusters self)\<rparr>)"
    by (simp add: Kmeans_updateClusters_def and_then_def fold_snoc_map)
  moreover have "map (\<lambda>c. length (centroid c)) (map u (clusters self))
                 = map (\<lambda>c. length (centroid c)) (clusters self)"
    using u by simp
  ultimately show ?thesis by blast
qed

lemma execute_pass_total:
  assumes "dims_agree self"
  shows "\<exists>s'. execute_pass ser fl self = Inr s' \<and> dims_agree s'"
proof -
  let ?orig = "clusters self"
  let ?cleared = "map Cluster_clear ?orig"
  let ?sa = "Kmeans_clearClusters self"
  from assms have ne: "?orig \<noteq> []"
    and dims: "\<forall>sq \<in> set (seqs self). \<forall>c \<in> set ?orig. length (features sq) = length (centroid c)"
    by (simp_all add: dims_agree_def)
  have s0: "clusters ?sa = ?cleared" "seqs ?sa = seqs self"
    by (simp_all add: Kmeans_clearClusters_def)
  have ne0: "?cleared \<noteq> []" using ne by simp
  have dims0: "\<forall>sq \<in> set (seqs self). \<forall>c \<in> set ?cleared. length (features sq) \<le> length (centroid c)"
  proof (intro ballI)
    fix sq c assume sq: "sq \<in> set (seqs self)" and "c \<in> set ?cleared"
    then obtain c0 where c0: "c0 \<in> set ?orig" "c = Cluster_clear c0" by auto
    then have "centroid c = centroid c0" by (simp add: Cluster_clear_def)
    then show "length (features sq) \<le> length (centroid c)" using dims sq c0(1) by simp
  qed
  from assign_loop [OF ne0 dims0, of fl] obtain cs1
    where run1: "for_loop (assign_one fl) (seqs self) ?cleared = Inr cs1"
      and len1: "length cs1 = length ?orig"
      and each1: "\<forall>j < length ?orig.
                    centroid (cs1 ! j) = centroid (?cleared ! j)
                    \<and> members (cs1 ! j) = members (?cleared ! j)
                         @ filter (\<lambda>sq. chosen fl ?cleared sq j) (seqs self)"
    by auto
  let ?sb = "?sa\<lparr>clusters := cs1\<rparr>"
  have a: "Kmeans_assignSeqs fl ?sa = Inr ?sb"
    using run1 by (simp add: Kmeans_assignSeqs_def s0 and_then_def)
  have at: "centroid (cs1 ! j) = centroid (?orig ! j) \<and> set (members (cs1 ! j)) \<subseteq> set (seqs self)"
    if "j < length ?orig" for j
  proof -
    from that have "?cleared ! j = Cluster_clear (?orig ! j)" by simp
    then have "centroid (?cleared ! j) = centroid (?orig ! j)" "members (?cleared ! j) = []"
      by (simp_all add: Cluster_clear_def)
    with each1 that show ?thesis by auto
  qed
  have cen1: "map (\<lambda>c. length (centroid c)) cs1 = map (\<lambda>c. length (centroid c)) ?orig"
    using len1 at by (intro nth_equalityI) simp_all
  have ok1: "\<forall>c \<in> set (clusters ?sb). \<forall>m \<in> set (members c).
               length (centroid c) \<le> length (features m)"
  proof (intro ballI)
    fix c m assume "c \<in> set (clusters ?sb)" "m \<in> set (members c)"
    then obtain j where j: "j < length ?orig" "c = cs1 ! j"
      using len1 by (auto simp: in_set_conv_nth)
    with at [of j] \<open>m \<in> set (members c)\<close>
    have "m \<in> set (seqs self)" "centroid c = centroid (?orig ! j)" by auto
    moreover have "?orig ! j \<in> set ?orig" using j(1) by simp
    ultimately show "length (centroid c) \<le> length (features m)" using dims by auto
  qed
  from updateClusters_total [OF ok1, of ser fl] obtain cs2
    where u: "Kmeans_updateClusters ser fl ?sb = Inr (?sb\<lparr>clusters := cs2\<rparr>)"
      and cen2: "map (\<lambda>c. length (centroid c)) cs2 = map (\<lambda>c. length (centroid c)) cs1"
    by auto
  let ?sc = "?sb\<lparr>clusters := cs2\<rparr>"
  have pass: "execute_pass ser fl self = Inr ?sc"
    using a u by (simp add: execute_pass_def and_then_def)
  have cen: "map (\<lambda>c. length (centroid c)) cs2 = map (\<lambda>c. length (centroid c)) ?orig"
    using cen1 cen2 by simp
  then have "length cs2 = length ?orig" by (metis length_map)
  then have ne2: "cs2 \<noteq> []" using ne by auto
  have "length (features sq) = length (centroid c)"
    if "sq \<in> set (seqs self)" "c \<in> set cs2" for sq c
  proof -
    from that(2) have "length (centroid c) \<in> set (map (\<lambda>c. length (centroid c)) cs2)" by simp
    then have "length (centroid c) \<in> set (map (\<lambda>c. length (centroid c)) ?orig)" using cen by simp
    then obtain c0 where "c0 \<in> set ?orig" "length (centroid c0) = length (centroid c)" by auto
    then show ?thesis using dims that(1) by auto
  qed
  then have "dims_agree ?sc"
    using ne2 by (simp add: dims_agree_def s0)
  with pass show ?thesis by blast
qed

lemma execute_loop_total:
  assumes "dims_agree self"
  shows "\<exists>r. execute_loop ser fl limit self run entered = Inr r"
  using assms
proof (induction ser fl limit self run entered rule: execute_loop.induct)
  case (1 ser fl limit self run entered)
  show ?case
  proof (cases "(\<not> Kmeans_checkClusters ser self) \<and> run < limit")
    case False
    then have "execute_loop ser fl limit self run entered = Inr (self, run, entered)"
      by (subst execute_loop.simps) auto
    then show ?thesis by blast
  next
    case True
    from execute_pass_total [OF "1.prems", of ser fl] obtain s1
      where pass: "execute_pass ser fl self = Inr s1" and "dims_agree s1" by blast
    from "1.IH" [OF True pass this(2)] obtain r
      where "execute_loop ser fl limit s1 (run + 1) (entered @ [self]) = Inr r" by blast
    with pass True have "execute_loop ser fl limit self run entered = Inr r"
      by (subst execute_loop.simps) simp
    then show ?thesis by blast
  qed
qed

text \<open>
  C3: the loop of \<open>execute\<close> is a total function: every pass increases \<open>run\<close>, which is
  bounded by the limit. For a positive limit and a run that returns, the passes performed
  are fewer than the limit (\<open>run\<close> is one more than their number), the convergence test
  failed before every pass, and in the final state the test holds or \<open>run\<close> has reached
  the limit. With a cluster count that is not negative, the test of \<open>_checkClusters\<close> is
  that \<open>_check\<close> holds for every cluster. With at least one cluster and a kernel whose
  vocabulary fits its size, the run raises nothing, so it returns.
\<close>

theorem execute_terminates:
  assumes "0 < limit"
  shows "(\<forall>self' run' entered.
            execute ser fl g (Kmeans_new sqs kern kk) limit = Inr (self', run', entered) \<longrightarrow>
              run' = 1 + int (length entered)
              \<and> int (length entered) < limit
              \<and> (\<forall>s \<in> set entered. \<not> Kmeans_checkClusters ser s)
              \<and> (Kmeans_checkClusters ser self' \<or> run' = limit)
              \<and> (0 \<le> kk \<longrightarrow>
                   (\<forall>s \<in> set (self' # entered).
                      Kmeans_checkClusters ser s \<longleftrightarrow> list_all (Cluster_check ser) (clusters s))))
         \<and> (1 \<le> kk \<and> kernel_fits kern \<longrightarrow>
               (\<exists>r. execute ser fl g (Kmeans_new sqs kern kk) limit = Inr r))"
proof (intro conjI allI impI)
  fix self' run' entered
  assume run: "execute ser fl g (Kmeans_new sqs kern kk) limit = Inr (self', run', entered)"
  let ?I = "\<lambda>s. kmeans_k s = kk \<and> length (clusters s) = nat kk"
  from run obtain s0 g' where init: "Kmeans_init (Kmeans_new sqs kern kk) g = Inr (s0, g')"
    and loop: "execute_loop ser fl limit s0 1 [] = Inr (self', run', entered)"
    by (auto simp: execute_def and_then_def split: sum.splits)
  from init obtain s1 where s1: "Kmeans_initSequences (Kmeans_new sqs kern kk) = Inr s1"
    "Kmeans_initClusters s1 g = Inr (s0, g')"
    by (auto simp: Kmeans_init_def and_then_def split: sum.splits)
  from initSequences_frame [OF s1(1)] initClusters_count [OF s1(2)]
  have I0: "?I s0" by (simp add: Kmeans_new_def)
  have keep: "?I s \<Longrightarrow> execute_pass ser fl s = Inr s' \<Longrightarrow> ?I s'" for s s'
    using execute_pass_count [of ser fl s s'] by simp
  have "\<exists>new. entered = [] @ new \<and> run' = 1 + int (length new)
           \<and> (\<forall>s \<in> set new. \<not> Kmeans_checkClusters ser s \<and> ?I s)
           \<and> ?I self'
           \<and> (Kmeans_checkClusters ser self' \<or> limit \<le> run')
           \<and> (new \<noteq> [] \<longrightarrow> run' \<le> limit)"
    by (rule execute_loop_stops [OF loop]) (fact I0, rule keep)
  then obtain new
    where new: "entered = [] @ new" "run' = 1 + int (length new)"
      "\<forall>s \<in> set new. \<not> Kmeans_checkClusters ser s \<and> ?I s" "?I self'"
      "Kmeans_checkClusters ser self' \<or> limit \<le> run'" "new \<noteq> [] \<longrightarrow> run' \<le> limit"
    by blast
  then have ent: "new = entered" by simp
  show "run' = 1 + int (length entered)" using new(2) ent by simp
  have le: "run' \<le> limit"
  proof (cases "entered = []")
    case True
    then show ?thesis using new(2) ent assms by simp
  next
    case False
    then show ?thesis using new(6) ent by simp
  qed
  then show "int (length entered) < limit" using new(2) ent by simp
  show "Kmeans_checkClusters ser self' \<or> run' = limit" using new(5) le by auto
  show "\<forall>s \<in> set entered. \<not> Kmeans_checkClusters ser s" using new(3) ent by simp
  show "\<forall>s \<in> set (self' # entered).
          Kmeans_checkClusters ser s \<longleftrightarrow> list_all (Cluster_check ser) (clusters s)"
    if kk: "0 \<le> kk"
  proof
    fix s assume "s \<in> set (self' # entered)"
    then have "kmeans_k s = kk" "length (clusters s) = nat kk" using new(3,4) ent by auto
    then show "Kmeans_checkClusters ser s \<longleftrightarrow> list_all (Cluster_check ser) (clusters s)"
      using kk checkClusters_all [of s ser] by simp
  qed
next
  assume "1 \<le> kk \<and> kernel_fits kern"
  then have "1 \<le> kk" "kernel_fits kern" by simp_all
  from init_total [OF this, of sqs g] obtain s0 g'
    where "Kmeans_init (Kmeans_new sqs kern kk) g = Inr (s0, g')" "dims_agree s0" by blast
  with execute_loop_total [of s0 ser fl limit 1 "[]"]
  show "\<exists>r. execute ser fl g (Kmeans_new sqs kern kk) limit = Inr r"
    by (auto simp: execute_def and_then_def)
qed

theorem execute_terminates_witness:
  "(0::int) < 1000 \<and> (1::int) \<le> 2 \<and> kernel_fits example_kernel
   \<and> (\<exists>self' entered.
         execute str_list (\<lambda>x. x) example_rng (Kmeans_new example_corpus example_kernel 2) 1000
           = Inr (self', 3, entered)
         \<and> length entered = 2
         \<and> list_all (\<lambda>s. \<not> Kmeans_checkClusters str_list s) entered
         \<and> Kmeans_checkClusters str_list self'
         \<and> list_all (Cluster_check str_list) (clusters self'))"
proof -
  let ?run = "execute str_list (\<lambda>x. x) example_rng (Kmeans_new example_corpus example_kernel 2) 1000"
  have limit: "(0::int) < 1000" and count: "(1::int) \<le> 2" by simp_all
  have fits: "kernel_fits example_kernel"
    by (simp add: kernel_fits_def example_kernel_def)
  have third: "(case ?run of Inl e \<Rightarrow> False | Inr (s, r, e) \<Rightarrow> r = 3)"
    by code_simp
  note facts = execute_terminates [OF limit, of str_list "\<lambda>x. x" example_rng example_corpus
      example_kernel 2]
  from facts [THEN conjunct2, THEN mp, OF conjI [OF count fits]]
  obtain r where "?run = Inr r" ..
  moreover obtain self' run' entered where "r = (self', run', entered)"
    by (cases r)
  ultimately have run: "?run = Inr (self', run', entered)" by simp
  with third have run': "run' = 3" by simp
  note stop = facts [THEN conjunct1, THEN spec, THEN spec, THEN spec, THEN mp, OF run]
  from stop have props: "run' = 1 + int (length entered)"
    "\<forall>s \<in> set entered. \<not> Kmeans_checkClusters str_list s"
    "Kmeans_checkClusters str_list self' \<or> run' = 1000"
    by blast+
  from stop have "(0::int) \<le> 2 \<longrightarrow> (\<forall>s \<in> set (self' # entered).
       Kmeans_checkClusters str_list s \<longleftrightarrow> list_all (Cluster_check str_list) (clusters s))"
    by blast
  then have every: "Kmeans_checkClusters str_list self'
                    \<longleftrightarrow> list_all (Cluster_check str_list) (clusters self')"
    by simp
  from props(1) run' have "length entered = 2" by simp
  moreover from props(3) run' have conv: "Kmeans_checkClusters str_list self'" by simp
  moreover from every conv have "list_all (Cluster_check str_list) (clusters self')" by simp
  moreover from props(2) have "list_all (\<lambda>s. \<not> Kmeans_checkClusters str_list s) entered"
    by (simp add: list_all_iff)
  ultimately show ?thesis using run run' limit count fits by simp
qed

text \<open>
  With a negative cluster count there is no cluster, and the first pass over a corpus that
  is not empty raises the ValueError of \<open>max\<close> on an empty list.
\<close>

lemma execute_without_clusters:
  "execute str_list (\<lambda>x. x) example_rng (Kmeans_new example_corpus example_kernel (- 1)) 1000
   = Inl (ValueError MaxOfEmpty)"
  by code_simp

end
